theory Spec2Isabelle
  imports Main "HOL-Library.Word"
begin

unbundle bit_operations_syntax

section \<open>Python values handed to the converters\<close>

text \<open>
  The converters of \<^verbatim>\<open>pdeathsignal.c\<close> receive arbitrary Python objects. The objects
  that matter to them are \<^verbatim>\<open>None\<close>, booleans, integers, sequences, and objects that are
  neither integers nor iterable (a float, say). The last kind carries the outcome of its
  truth test, which may raise. Such an object may still have an \<^verbatim>\<open>__index__\<close> method
  (a NumPy integer, say): \<open>PyIndexable\<close> carries the outcome of the truth test and the
  integer that \<^verbatim>\<open>__index__\<close> returns.
\<close>

datatype exc = TypeError | OverflowError | OSError | Exception | ValueError

datatype pyobj =
    PyNone
  | PyBool bool
  | PyLong int
  | PyList "pyobj list"
  | PyOther "exc + bool"
  | PyIndexable "exc + bool" int

text \<open>
  How a converter can fail: with a Python exception pending, by returning failure with no
  exception set, or by running into an operation whose behaviour the C standard leaves
  undefined.
\<close>

datatype failure = Raised exc | NoExceptionSet | UndefinedBehaviour

subsection \<open>The CPython calls used, as documented for Python 3\<close>

text \<open>\<^verbatim>\<open>PyObject_IsTrue\<close>: the truth value, or an exception (the C function returns -1).\<close>

fun PyObject_IsTrue :: "pyobj \<Rightarrow> exc + bool" where
  "PyObject_IsTrue PyNone = Inr False"
| "PyObject_IsTrue (PyBool b) = Inr b"
| "PyObject_IsTrue (PyLong v) = Inr (v \<noteq> 0)"
| "PyObject_IsTrue (PyList xs) = Inr (xs \<noteq> [])"
| "PyObject_IsTrue (PyOther t) = t"
| "PyObject_IsTrue (PyIndexable t v) = t"

text \<open>
  \<^verbatim>\<open>PyLong_AsUnsignedLongLong\<close>: \<^verbatim>\<open>TypeError\<close> unless the object is an int (a bool is
  one), \<^verbatim>\<open>OverflowError\<close> when the value is negative or does not fit 64 bits. \<open>Inl\<close> stands
  for the return value \<^verbatim>\<open>(unsigned long long) -1\<close> with the exception pending.
\<close>

fun PyLong_AsUnsignedLongLong :: "pyobj \<Rightarrow> exc + 64 word" where
  "PyLong_AsUnsignedLongLong (PyBool b) = Inr (if b then 1 else 0)"
| "PyLong_AsUnsignedLongLong (PyLong v) =
     (if v < 0 \<or> 2 ^ 64 \<le> v then Inl OverflowError else Inr (word_of_int v))"
| "PyLong_AsUnsignedLongLong PyNone = Inl TypeError"
| "PyLong_AsUnsignedLongLong (PyList xs) = Inl TypeError"
| "PyLong_AsUnsignedLongLong (PyOther t) = Inl TypeError"
| "PyLong_AsUnsignedLongLong (PyIndexable t v) = Inl TypeError"

definition LONG_MIN :: int where "LONG_MIN = - (2 ^ 63)"
definition LONG_MAX :: int where "LONG_MAX = 2 ^ 63 - 1"

text \<open>
  \<^verbatim>\<open>PyLong_AsLong\<close>: the value of an int, or of the \<^verbatim>\<open>__index__\<close> method of an object that
  is not one (Python 3.8 and later), if it fits a C \<^verbatim>\<open>long\<close>; \<open>Inl\<close> stands for the return
  value -1 with the exception pending.
\<close>

fun PyLong_AsLong :: "pyobj \<Rightarrow> exc + int" where
  "PyLong_AsLong (PyBool b) = Inr (if b then 1 else 0)"
| "PyLong_AsLong (PyLong v) =
     (if v < LONG_MIN \<or> LONG_MAX < v then Inl OverflowError else Inr v)"
| "PyLong_AsLong PyNone = Inl TypeError"
| "PyLong_AsLong (PyList xs) = Inl TypeError"
| "PyLong_AsLong (PyOther t) = Inl TypeError"
| "PyLong_AsLong (PyIndexable t v) =
     (if v < LONG_MIN \<or> LONG_MAX < v then Inl OverflowError else Inr v)"

text \<open>\<^verbatim>\<open>PyObject_GetIter\<close>: the elements the iterator will yield, or \<^verbatim>\<open>TypeError\<close>.\<close>

fun PyObject_GetIter :: "pyobj \<Rightarrow> exc + pyobj list" where
  "PyObject_GetIter (PyList xs) = Inr xs"
| "PyObject_GetIter PyNone = Inl TypeError"
| "PyObject_GetIter (PyBool b) = Inl TypeError"
| "PyObject_GetIter (PyLong v) = Inl TypeError"
| "PyObject_GetIter (PyOther t) = Inl TypeError"
| "PyObject_GetIter (PyIndexable t v) = Inl TypeError"

section \<open>Platform constants\<close>

text \<open>
  The values of \<^verbatim>\<open><signal.h>\<close> and \<^verbatim>\<open><sched.h>\<close> on Linux with glibc (x86 and ARM
  numbering): \<^verbatim>\<open>_NSIG\<close> is 65, \<^verbatim>\<open>SIGKILL\<close> is 9, \<^verbatim>\<open>SIGSTOP\<close> is 19.
\<close>

definition NSIG :: int where "NSIG = 65"
definition SIGKILL :: nat where "SIGKILL = 9"
definition SIGSTOP :: nat where "SIGSTOP = 19"

definition CLONE_VM :: "32 word" where "CLONE_VM = 0x100"
definition CLONE_VFORK :: "32 word" where "CLONE_VFORK = 0x4000"
definition CLONE_PARENT :: "32 word" where "CLONE_PARENT = 0x8000"

definition INT_MAX :: int where "INT_MAX = 2 ^ 31 - 1"

section \<open>The signal-set codec\<close>

text \<open>
  The C expression \<^verbatim>\<open>a << k\<close> on operands of type \<^verbatim>\<open>int\<close> (C11 6.5.7): the value is
  \<open>a * 2 ^ k\<close> when \<open>a\<close> is not negative, \<open>k\<close> is in \<open>[0, 32)\<close> and the product is
  representable in \<^verbatim>\<open>int\<close>; otherwise the behaviour is undefined (\<open>None\<close>).
\<close>

definition shl_int :: "int \<Rightarrow> int \<Rightarrow> int option" where
  "shl_int a k =
     (if 0 \<le> a \<and> 0 \<le> k \<and> k < 32 \<and> a * 2 ^ nat k \<le> INT_MAX
      then Some (a * 2 ^ nat k) else None)"

text \<open>\<^verbatim>\<open>pylong_to_signum\<close> (lines 226-244).\<close>

definition pylong_to_signum :: "pyobj \<Rightarrow> failure + int" where
  "pylong_to_signum obj =
     (case PyLong_AsLong obj of
        Inl e \<Rightarrow> Inl (Raised e)
      | Inr v \<Rightarrow>
          if v < 0 \<or> v > NSIG then
            (if \<not> (v = - 1) then Inl (Raised OverflowError) else Inl NoExceptionSet)
          else Inr v)"

text \<open>\<^verbatim>\<open>signal_x_convert\<close> and its two instances (lines 247-262).\<close>

definition signal_x_convert :: "pyobj option \<Rightarrow> int \<Rightarrow> failure + int" where
  "signal_x_convert obj x =
     (case obj of
        None \<Rightarrow> Inr x
      | Some PyNone \<Rightarrow> Inr x
      | Some o' \<Rightarrow> pylong_to_signum o')"

definition signal_0_convert :: "pyobj option \<Rightarrow> failure + int" where
  "signal_0_convert obj = signal_x_convert obj 0"

definition signal_m1_convert :: "pyobj option \<Rightarrow> failure + int" where
  "signal_m1_convert obj = signal_x_convert obj (- 1)"

text \<open>
  The \<^verbatim>\<open>for (;;)\<close> loop of \<^verbatim>\<open>sigign_converter\<close> (lines 306-329) over the elements the
  iterator yields. The accumulator is a \<^verbatim>\<open>uint64_t\<close>, but the shifted operand is the
  \<^verbatim>\<open>int\<close> constant 1, so the shift is an \<^verbatim>\<open>int\<close> shift whose result is then converted.
\<close>

fun sigign_iterate :: "pyobj list \<Rightarrow> 64 word \<Rightarrow> failure + 64 word" where
  "sigign_iterate [] accu = Inr accu"
| "sigign_iterate (elem # rest) accu =
     (case pylong_to_signum elem of
        Inl e \<Rightarrow> Inl e
      | Inr signum \<Rightarrow>
          if signum > 0 then
            (case shl_int 1 (signum - 1) of
               None \<Rightarrow> Inl UndefinedBehaviour
             | Some v \<Rightarrow> sigign_iterate rest (accu OR word_of_int v))
          else sigign_iterate rest accu)"

text \<open>
  \<^verbatim>\<open>sigign_converter\<close> (lines 265-336). The argument is \<open>None\<close> when the caller did not
  pass \<^verbatim>\<open>sigign\<close>.
\<close>

definition sigign_converter :: "pyobj option \<Rightarrow> failure + 64 word" where
  "sigign_converter obj =
     (case obj of
        None \<Rightarrow> Inr 0
      | Some PyNone \<Rightarrow> Inr 0
      | Some o' \<Rightarrow>
          (case PyObject_IsTrue o' of
             Inl e \<Rightarrow> Inl (Raised e)
           | Inr False \<Rightarrow> Inr 0
           | Inr True \<Rightarrow>
               (case PyLong_AsUnsignedLongLong o' of
                  Inr ull_value \<Rightarrow> Inr ull_value
                | Inl e \<Rightarrow>
                    if e \<noteq> TypeError then Inl (Raised e)
                    else
                      (case PyObject_GetIter o' of
                         Inl e' \<Rightarrow> Inl (Raised e')
                       | Inr elems \<Rightarrow> sigign_iterate elems 0))))"

section \<open>The spawn trampoline\<close>

text \<open>The bit positions of \<^verbatim>\<open>flags\<close> and the shared descriptor (lines 378-394).\<close>

definition ETD_SEARCH_PATH :: nat where "ETD_SEARCH_PATH = 0"
definition ETD_SETSID :: nat where "ETD_SETSID = 1"
definition ETD_DOUBLEFORK :: nat where "ETD_DOUBLEFORK = 2"

record ExecTrampolineData =
  path :: string
  argv :: "string list"
  envp :: "string list option"
  flags :: "32 word"
  parent_signal :: int
  sigign :: "64 word"
  childpid :: int
  fun_name :: "string option"
  error :: int

text \<open>
  The memory the execution contexts share: \<^verbatim>\<open>clone\<close> is called with \<^verbatim>\<open>CLONE_VM\<close> and
  without \<^verbatim>\<open>CLONE_SETTLS\<close>, so the descriptor and \<^verbatim>\<open>errno\<close> are the same objects in the
  caller, in the created context and in the context a double fork creates.
\<close>

record mem =
  data :: ExecTrampolineData
  errno :: int

text \<open>
  What the operating system answers. Execution contexts are numbered: 0 is the thread
  that calls \<^verbatim>\<open>cloneandexecve\<close>, 1 the context its \<^verbatim>\<open>clone\<close> creates, 2 the one a
  double fork creates from there. A failing call is given by the \<^verbatim>\<open>errno\<close> it sets;
  \<open>clone_ret\<close> is \<open>Inl\<close> of that \<^verbatim>\<open>errno\<close> (the call returns -1) or \<open>Inr\<close> of the new
  process id. \<open>waitpid_ret k\<close> is the value the caller's \<open>k\<close>-th \<^verbatim>\<open>waitpid\<close> returns.
\<close>

record os =
  setsid_err :: "nat \<Rightarrow> int option"
  prctl_err :: "nat \<Rightarrow> int \<Rightarrow> int option"
  clone_ret :: "nat \<Rightarrow> 32 word \<Rightarrow> int + int"
  signal_err :: "nat \<Rightarrow> nat \<Rightarrow> int option"
  getpid_ret :: "nat \<Rightarrow> int"
  exec_err :: "nat \<Rightarrow> int option"
  waitpid_ret :: "nat \<Rightarrow> int"

text \<open>
  The trace of the system calls made: the context that made the call, the call, the
  \<^verbatim>\<open>errno\<close> of a failure, and the descriptor as it stood when the call was made.
\<close>

datatype exec_fn = Execvpe | Execve | Execvp | Execv

datatype syscall =
    Setsid
  | Prctl_set_pdeathsig int
  | Clone "32 word"
  | Signal_ign nat
  | Getpid
  | Exec exec_fn
  | Raise_SIGKILL

record event =
  ev_ctx :: nat
  ev_call :: syscall
  ev_fail :: "int option"
  ev_data :: ExecTrampolineData

text \<open>
  How a context that runs the trampoline ends. \<^verbatim>\<open>SIGKILL\<close> cannot be caught, blocked or
  ignored, so \<^verbatim>\<open>raise(SIGKILL)\<close> ends the context and the \<^verbatim>\<open>return -1\<close> after it is
  never reached.
\<close>

datatype outcome = ImageReplaced | Killed | Returned int

text \<open>The label \<^verbatim>\<open>fail\<close> (lines 471-475), entered with the local variable \<^verbatim>\<open>fun\<close>.\<close>

definition goto_fail ::
  "nat \<Rightarrow> string option \<Rightarrow> mem \<Rightarrow> event list \<Rightarrow> outcome \<times> mem \<times> event list" where
  "goto_fail n fn m es =
     (let d = (data m)\<lparr>fun_name := fn, error := errno m\<rparr>
      in (Killed, m\<lparr>data := d\<rparr>,
          es @ [\<lparr>ev_ctx = n, ev_call = Raise_SIGKILL, ev_fail = None, ev_data = d\<rparr>]))"

text \<open>
  Lines 401-408. A block either jumps to \<^verbatim>\<open>fail\<close> with \<^verbatim>\<open>fun\<close> set (\<open>Inl\<close>) or falls
  through to the next block (\<open>Inr\<close>).
\<close>

definition setsid_block ::
  "os \<Rightarrow> nat \<Rightarrow> mem \<Rightarrow> (string \<times> mem \<times> event list) + (mem \<times> event list)" where
  "setsid_block os n m =
     (if flags (data m) AND push_bit ETD_SETSID 1 \<noteq> 0 then
        (let d = (data m)\<lparr>flags := flags (data m) AND NOT (push_bit ETD_SETSID 1)\<rparr>;
             ev = \<lparr>ev_ctx = n, ev_call = Setsid, ev_fail = setsid_err os n, ev_data = d\<rparr>
         in case setsid_err os n of
              Some e \<Rightarrow> Inl (''setsid'', m\<lparr>data := d, errno := e\<rparr>, [ev])
            | None \<Rightarrow> Inr (m\<lparr>data := d\<rparr>, [ev]))
      else Inr (m, []))"

text \<open>Lines 410-418.\<close>

definition pdeathsig_block ::
  "os \<Rightarrow> nat \<Rightarrow> mem \<Rightarrow> (string \<times> mem \<times> event list) + (mem \<times> event list)" where
  "pdeathsig_block os n m =
     (let parent_signal' = parent_signal (data m) in
      if parent_signal' \<ge> 0 then
        (let d = (data m)\<lparr>parent_signal := 0\<rparr>;
             ev = \<lparr>ev_ctx = n, ev_call = Prctl_set_pdeathsig parent_signal',
                   ev_fail = prctl_err os n parent_signal', ev_data = d\<rparr>
         in case prctl_err os n parent_signal' of
              Some e \<Rightarrow> Inl (''PR_SET_PDEATHSIG'', m\<lparr>data := d, errno := e\<rparr>, [ev])
            | None \<Rightarrow> Inr (m\<lparr>data := d\<rparr>, [ev]))
      else Inr (m, []))"

text \<open>
  The \<^verbatim>\<open>do ... while (sigign)\<close> loop of lines 434-448, with the local copy of the mask
  and \<^verbatim>\<open>signum\<close>. It returns the \<^verbatim>\<open>errno\<close> of the \<^verbatim>\<open>signal\<close> call that failed, if one
  did, and the calls made.
\<close>

function signal_loop ::
  "os \<Rightarrow> nat \<Rightarrow> ExecTrampolineData \<Rightarrow> 64 word \<Rightarrow> nat \<Rightarrow> int option \<times> event list" where
  "signal_loop os n d sg signum =
     (let has = (sg AND 1 = 1);
          sg' = drop_bit 1 sg;
          signum' = signum + 1
      in if \<not> has \<or> signum' = SIGKILL \<or> signum' = SIGSTOP then
           (if sg' \<noteq> 0 then signal_loop os n d sg' signum' else (None, []))
         else
           (let ev = \<lparr>ev_ctx = n, ev_call = Signal_ign signum',
                      ev_fail = signal_err os n signum', ev_data = d\<rparr>
            in case signal_err os n signum' of
                 Some e \<Rightarrow> (Some e, [ev])
               | None \<Rightarrow>
                   if sg' \<noteq> 0 then
                     (case signal_loop os n d sg' signum' of (r, es) \<Rightarrow> (r, ev # es))
                   else (None, [ev])))"
  by pat_completeness auto
termination signal_loop
proof -
  have half: "unat (drop_bit (Suc 0) w) < unat w" if "drop_bit (Suc 0) w \<noteq> 0" for w :: "64 word"
  proof -
    have "unat (drop_bit (Suc 0) w) = unat w div 2"
      unfolding unat_drop_bit_eq by (simp add: drop_bit_eq_div)
    moreover have "unat w \<noteq> 0"
      using that by (auto simp: unat_eq_0)
    ultimately show ?thesis by simp
  qed
  show ?thesis
    by (relation "measure (\<lambda>(os, n, d, sg, signum). unat sg)") (simp_all add: half)
qed

text \<open>Lines 430-449.\<close>

definition sigign_block ::
  "os \<Rightarrow> nat \<Rightarrow> mem \<Rightarrow> (string \<times> mem \<times> event list) + (mem \<times> event list)" where
  "sigign_block os n m =
     (let sigign' = sigign (data m) in
      if sigign' \<noteq> 0 then
        (let d = (data m)\<lparr>sigign := 0\<rparr>
         in case signal_loop os n d sigign' 0 of
              (Some e, es) \<Rightarrow> Inl (''signal'', m\<lparr>data := d, errno := e\<rparr>, es)
            | (None, es) \<Rightarrow> Inr (m\<lparr>data := d\<rparr>, es))
      else Inr (m, []))"

text \<open>
  Lines 451-469: the write of \<^verbatim>\<open>childpid\<close> and the four \<^verbatim>\<open>exec\<close> variants. A variant
  that returns has failed.
\<close>

definition exec_block :: "os \<Rightarrow> nat \<Rightarrow> mem \<Rightarrow> event list \<Rightarrow> outcome \<times> mem \<times> event list" where
  "exec_block os n m es =
     (let d = (data m)\<lparr>childpid := getpid_ret os n\<rparr>;
          ev_pid = \<lparr>ev_ctx = n, ev_call = Getpid, ev_fail = None, ev_data = data m\<rparr>;
          (call, fn) =
            (if envp d \<noteq> None then
               (if flags d AND push_bit ETD_SEARCH_PATH 1 \<noteq> 0 then (Execvpe, ''execvpe'')
                else (Execve, ''execve''))
             else
               (if flags d AND push_bit ETD_SEARCH_PATH 1 \<noteq> 0 then (Execvp, ''execvp'')
                else (Execv, ''execv'')));
          ev = \<lparr>ev_ctx = n, ev_call = Exec call, ev_fail = exec_err os n, ev_data = d\<rparr>
      in case exec_err os n of
           None \<Rightarrow> (ImageReplaced, m\<lparr>data := d\<rparr>, es @ [ev_pid, ev])
         | Some e \<Rightarrow> goto_fail n (Some fn) (m\<lparr>data := d, errno := e\<rparr>) (es @ [ev_pid, ev]))"

text \<open>
  \<^verbatim>\<open>exec_trampoline\<close> (lines 397-476), run by context \<open>n\<close>. The double-fork block
  (lines 420-428) calls \<^verbatim>\<open>clone\<close> with \<^verbatim>\<open>CLONE_VFORK\<close>: the calling context is
  suspended until the new one, which runs the same function on the same descriptor, has
  replaced its image or is dead. When \<^verbatim>\<open>clone\<close> succeeds the local \<^verbatim>\<open>fun\<close> is still
  \<^verbatim>\<open>NULL\<close> at the jump to \<^verbatim>\<open>fail\<close>.
\<close>

function exec_trampoline :: "os \<Rightarrow> nat \<Rightarrow> mem \<Rightarrow> outcome \<times> mem \<times> event list" where
  "exec_trampoline os n m =
     (case setsid_block os n m of
        Inl (fn, m1, es1) \<Rightarrow> goto_fail n (Some fn) m1 es1
      | Inr (m1, es1) \<Rightarrow>
     (case pdeathsig_block os n m1 of
        Inl (fn, m2, es2) \<Rightarrow> goto_fail n (Some fn) m2 (es1 @ es2)
      | Inr (m2, es2) \<Rightarrow>
          if flags (data m2) AND push_bit ETD_DOUBLEFORK 1 \<noteq> 0 then
            (let d = (data m2)\<lparr>flags := flags (data m2) AND NOT (push_bit ETD_DOUBLEFORK 1)\<rparr>;
                 childprocess = clone_ret os n (CLONE_VFORK OR CLONE_VM);
                 ev = \<lparr>ev_ctx = n, ev_call = Clone (CLONE_VFORK OR CLONE_VM),
                       ev_fail = (case childprocess of Inl e \<Rightarrow> Some e | Inr pid \<Rightarrow> None),
                       ev_data = d\<rparr>
             in case childprocess of
                  Inl e \<Rightarrow>
                    goto_fail n (Some ''clone(doublefork)'') (m2\<lparr>data := d, errno := e\<rparr>)
                      (es1 @ es2 @ [ev])
                | Inr pid \<Rightarrow>
                    (case exec_trampoline os (Suc n) (m2\<lparr>data := d\<rparr>) of
                       (out', m3, es3) \<Rightarrow> goto_fail n None m3 (es1 @ es2 @ [ev] @ es3)))
          else
            (case sigign_block os n m2 of
               Inl (fn, m4, es4) \<Rightarrow> goto_fail n (Some fn) m4 (es1 @ es2 @ es4)
             | Inr (m4, es4) \<Rightarrow> exec_block os n m4 (es1 @ es2 @ es4))))"
  by pat_completeness auto
termination exec_trampoline
proof -
  have keep1: "flags (data m1) = flags (data m) AND NOT (push_bit ETD_SETSID 1) \<or> flags (data m1) = flags (data m)"
    if "setsid_block os n m = Inr (m1, es1)" for os n m m1 es1
    using that by (auto simp: setsid_block_def Let_def split: if_splits option.splits)
  have keep2: "flags (data m2) = flags (data m1)"
    if "pdeathsig_block os n m1 = Inr (m2, es2)" for os n m1 m2 es2
    using that by (auto simp: pdeathsig_block_def Let_def split: if_splits option.splits)
  have swap: "(w AND NOT a) AND b = (w AND b) AND NOT a" for w a b :: "32 word"
    by (simp add: and.assoc and.commute and.left_commute)
  have bits: "w AND b \<noteq> 0" if "(w AND NOT a) AND b \<noteq> 0" for w a b :: "32 word"
  proof
    assume "w AND b = 0"
    then have "(w AND NOT a) AND b = 0"
      unfolding swap by simp
    with that show False by simp
  qed
  have clr: "(w AND NOT b) AND b = 0" for w b :: "32 word"
    by (simp add: and.assoc)
  show ?thesis
  proof (relation "measure (\<lambda>(os, n, m). if flags (data m) AND push_bit ETD_DOUBLEFORK 1 \<noteq> 0 then 1 else 0)")
    show "wf (measure (\<lambda>(os, n, m). if flags (data m) AND push_bit ETD_DOUBLEFORK 1 \<noteq> 0 then 1 else (0::nat)))"
      by simp
  next
    fix os :: os and n :: nat and m m1 m2 :: mem and es1 es2 :: "event list"
      and d :: ExecTrampolineData and x2 x2a
    assume s1: "setsid_block os n m = Inr x2" "(m1, es1) = x2"
      and s2: "pdeathsig_block os n m1 = Inr x2a" "(m2, es2) = x2a"
      and df: "flags (data m2) AND push_bit ETD_DOUBLEFORK 1 \<noteq> 0"
      and d: "d = (data m2)\<lparr>flags := flags (data m2) AND NOT (push_bit ETD_DOUBLEFORK 1)\<rparr>"
    have "flags (data m1) AND push_bit ETD_DOUBLEFORK 1 \<noteq> 0"
      using keep2[of os n m1 m2 es2] s2 df by simp
    then have "flags (data m) AND push_bit ETD_DOUBLEFORK 1 \<noteq> 0"
      using keep1[of os n m m1 es1] s1 bits[of "flags (data m)" "push_bit ETD_SETSID 1" "push_bit ETD_DOUBLEFORK 1"]
      by auto
    moreover have "flags d AND push_bit ETD_DOUBLEFORK 1 = 0"
      unfolding d using clr[of "flags (data m2)" "push_bit ETD_DOUBLEFORK 1"] by simp
    ultimately show "((os, Suc n, m2\<lparr>data := d\<rparr>), os, n, m)
       \<in> measure (\<lambda>(os, n, m). if flags (data m) AND push_bit ETD_DOUBLEFORK 1 \<noteq> 0 then 1 else 0)"
      by simp
  qed
qed

declare signal_loop.simps [simp del]
declare exec_trampoline.simps [simp del]

section \<open>The caller\<close>

text \<open>
  The arguments of \<^verbatim>\<open>cloneandexecve\<close> after the marshalling of \<^verbatim>\<open>path\<close>, \<^verbatim>\<open>args\<close> and
  \<^verbatim>\<open>env\<close> into byte strings and of the four flags into \<^verbatim>\<open>bool\<close>; \<^verbatim>\<open>signal\<close> and
  \<^verbatim>\<open>sigign\<close> are the objects passed, \<open>None\<close> when the keyword is absent.
\<close>

record call_args =
  arg_path :: string
  arg_args :: "string list option"
  arg_env :: "string list option"
  arg_signal :: "pyobj option"
  arg_sibling :: bool
  arg_search_path :: bool
  arg_setsid :: bool
  arg_doublefork :: bool
  arg_sigign :: "pyobj option"

text \<open>
  What the call gives back to Python: a process id, \<^verbatim>\<open>None\<close>, an exception raised with
  \<^verbatim>\<open>PyErr_Format\<close> (its class, format string and arguments), or the failure of a
  converter.
\<close>

datatype fmt_arg = Arg_str string | Arg_int int

datatype pyresult =
    Return_pid int
  | Return_None
  | Error exc string "fmt_arg list"
  | Convert_failed failure

text \<open>
  \<^verbatim>\<open>cloneandexecve_impl\<close> (lines 479-588); \<open>errno0\<close> is the value of \<^verbatim>\<open>errno\<close> when
  the call is made. \<^verbatim>\<open>clone\<close> is called with \<^verbatim>\<open>CLONE_VFORK\<close>, so the trampoline has
  run to its end (image replaced, or dead) when \<^verbatim>\<open>clone\<close> returns in the caller. The
  result comes with the trace of the calls the created contexts made.
\<close>

definition cloneandexecve_impl :: "os \<Rightarrow> int \<Rightarrow> call_args \<Rightarrow> pyresult \<times> event list" where
  "cloneandexecve_impl os errno0 a =
     (case signal_m1_convert (arg_signal a) of
        Inl f \<Rightarrow> (Convert_failed f, [])
      | Inr exec_signal \<Rightarrow>
     (case sigign_converter (arg_sigign a) of
        Inl f \<Rightarrow> (Convert_failed f, [])
      | Inr exec_sigign \<Rightarrow>
          (let trampoline_data =
                 \<lparr>path = arg_path a,
                  argv = (case arg_args a of Some argv_list \<Rightarrow> argv_list | None \<Rightarrow> [arg_path a]),
                  envp = arg_env a,
                  flags =
                    (if arg_search_path a then push_bit ETD_SEARCH_PATH 1 else 0) OR
                    (if arg_setsid a then push_bit ETD_SETSID 1 else 0) OR
                    (if arg_doublefork a then push_bit ETD_DOUBLEFORK 1 else 0) OR
                    0,
                  parent_signal = exec_signal,
                  sigign = exec_sigign,
                  childpid = - 1, fun_name = None, error = - 1\<rparr>;
               flags' =
                 (if arg_sibling a then (CLONE_VFORK OR CLONE_VM) OR CLONE_PARENT
                  else CLONE_VFORK OR CLONE_VM)
           in case clone_ret os 0 flags' of
                Inl code \<Rightarrow> (Error Exception ''clone failed with errno=%d'' [Arg_int code], [])
              | Inr childprocess \<Rightarrow>
                  (case exec_trampoline os 1 \<lparr>data = trampoline_data, errno = errno0\<rparr> of
                     (out, m, es) \<Rightarrow>
                       (let waitpid_result = (if waitpid_ret os 0 > 0 then 1 else (0::int));
                            waitpid_result =
                              (if childpid (data m) \<ge> 0 \<and> childpid (data m) \<noteq> childprocess
                               then (if waitpid_ret os 1 > 0 then 1 else 0)
                               else waitpid_result)
                        in case fun_name (data m) of
                             Some fn \<Rightarrow>
                               (Error OSError ''clone successful, but %s failed with errno=%d''
                                  [Arg_str fn, Arg_int (error (data m))], es)
                           | None \<Rightarrow>
                               if waitpid_result = 0 then (Return_pid (childpid (data m)), es)
                               else (Return_None, es))))))"


section \<open>Vocabulary for the properties of the trampoline\<close>

text \<open>The parts of a run: how the context ended, the descriptor it left, the calls made.\<close>

definition outcome_of :: "outcome \<times> mem \<times> event list \<Rightarrow> outcome" where
  "outcome_of r = fst r"

definition final_data :: "outcome \<times> mem \<times> event list \<Rightarrow> ExecTrampolineData" where
  "final_data r = data (fst (snd r))"

definition trace_of :: "outcome \<times> mem \<times> event list \<Rightarrow> event list" where
  "trace_of r = snd (snd r)"

definition by_ctx :: "nat \<Rightarrow> event list \<Rightarrow> event list" where
  "by_ctx c es = filter (\<lambda>e. ev_ctx e = c) es"

text \<open>
  The position of a call in the order of the steps: session detach, parent-death signal,
  double fork, signal dispositions, own process id, image replacement, terminal failure.
\<close>

fun step_rank :: "syscall \<Rightarrow> nat" where
  "step_rank Setsid = 1"
| "step_rank (Prctl_set_pdeathsig s) = 2"
| "step_rank (Clone f) = 3"
| "step_rank (Signal_ign k) = 4"
| "step_rank Getpid = 5"
| "step_rank (Exec v) = 6"
| "step_rank Raise_SIGKILL = 7"

text \<open>
  A list of calls is in step order when the ranks strictly increase, except that the
  signal-disposition step may make several calls.
\<close>

definition in_order :: "event list \<Rightarrow> bool" where
  "in_order es =
     sorted_wrt (\<lambda>a b. step_rank (ev_call a) < step_rank (ev_call b) \<or>
                        (step_rank (ev_call a) = 4 \<and> step_rank (ev_call b) = 4)) es"

text \<open>The field that triggers a step is already cleared in the descriptor when the call is made.\<close>

fun trigger_cleared :: "event \<Rightarrow> bool" where
  "trigger_cleared e =
     (case ev_call e of
        Setsid \<Rightarrow> flags (ev_data e) AND push_bit ETD_SETSID 1 = 0
      | Prctl_set_pdeathsig s \<Rightarrow> parent_signal (ev_data e) = 0
      | Clone f \<Rightarrow> flags (ev_data e) AND push_bit ETD_DOUBLEFORK 1 = 0
      | Signal_ign k \<Rightarrow> sigign (ev_data e) = 0
      | Getpid \<Rightarrow> True
      | Exec v \<Rightarrow> True
      | Raise_SIGKILL \<Rightarrow> True)"

text \<open>The name under which a failure of the call is recorded in \<^verbatim>\<open>fun\<close>.\<close>

fun call_name :: "syscall \<Rightarrow> string" where
  "call_name Setsid = ''setsid''"
| "call_name (Prctl_set_pdeathsig s) = ''PR_SET_PDEATHSIG''"
| "call_name (Clone f) = ''clone(doublefork)''"
| "call_name (Signal_ign k) = ''signal''"
| "call_name Getpid = ''getpid''"
| "call_name (Exec Execvpe) = ''execvpe''"
| "call_name (Exec Execve) = ''execve''"
| "call_name (Exec Execvp) = ''execvp''"
| "call_name (Exec Execv) = ''execv''"
| "call_name Raise_SIGKILL = ''raise''"

text \<open>
  The record of a failure: the event of \<^verbatim>\<open>raise(SIGKILL)\<close> made by the context of the
  failed call, on the descriptor of the failed call with \<^verbatim>\<open>fun\<close> and \<^verbatim>\<open>error\<close> written.
\<close>

definition failure_record :: "event \<Rightarrow> int \<Rightarrow> event" where
  "failure_record e code =
     \<lparr>ev_ctx = ev_ctx e, ev_call = Raise_SIGKILL, ev_fail = None,
      ev_data = (ev_data e)\<lparr>fun_name := Some (call_name (ev_call e)), error := code\<rparr>\<rparr>"

text \<open>Every failed call of a trace is directly followed by its failure record.\<close>

fun failures_reported :: "event list \<Rightarrow> bool" where
  "failures_reported [] = True"
| "failures_reported (e # es) =
     ((case ev_fail e of
         None \<Rightarrow> True
       | Some code \<Rightarrow> (case es of [] \<Rightarrow> False | k # ks \<Rightarrow> k = failure_record e code))
      \<and> failures_reported es)"

definition is_clone :: "syscall \<Rightarrow> bool" where
  "is_clone c = (case c of Clone f \<Rightarrow> True | _ \<Rightarrow> False)"


definition is_exec :: "syscall \<Rightarrow> bool" where
  "is_exec c = (case c of Exec v \<Rightarrow> True | _ \<Rightarrow> False)"

text \<open>
  A call is asked for by a descriptor: the session detach by its flag, the parent-death
  signal by a value that is not negative, the double fork by its flag, the disposition of
  signal \<open>k\<close> by bit \<open>k - 1\<close> of the mask, unless \<open>k\<close> is one of the two signals whose
  disposition cannot be changed.
\<close>

definition call_justified :: "ExecTrampolineData \<Rightarrow> syscall \<Rightarrow> bool" where
  "call_justified d c =
     (case c of
        Setsid \<Rightarrow> flags d AND push_bit ETD_SETSID 1 \<noteq> 0
      | Prctl_set_pdeathsig s \<Rightarrow> s = parent_signal d \<and> 0 \<le> s
      | Clone f \<Rightarrow> flags d AND push_bit ETD_DOUBLEFORK 1 \<noteq> 0
      | Signal_ign k \<Rightarrow>
          1 \<le> k \<and> k \<le> 64 \<and> k \<noteq> SIGKILL \<and> k \<noteq> SIGSTOP \<and> bit (sigign d) (k - 1)
      | Getpid \<Rightarrow> True
      | Exec v \<Rightarrow> True
      | Raise_SIGKILL \<Rightarrow> True)"

text \<open>
  The calls of one pass of context \<open>n\<close> that started from descriptor \<open>d\<close>: in step
  order, each asked for by \<open>d\<close> and made with its trigger cleared, none but the last
  failing. \<open>quiet\<close> calls are such calls of steps up to \<open>r\<close> that all succeeded.
\<close>

definition pass_calls :: "nat \<Rightarrow> ExecTrampolineData \<Rightarrow> event list \<Rightarrow> bool" where
  "pass_calls n d es =
     (in_order es \<and>
      (\<forall>e\<in>set es. ev_ctx e = n \<and> trigger_cleared e \<and> call_justified d (ev_call e) \<and>
                   step_rank (ev_call e) \<le> 6) \<and>
      (\<forall>e\<in>set (butlast es). ev_fail e = None))"

definition quiet :: "nat \<Rightarrow> ExecTrampolineData \<Rightarrow> nat \<Rightarrow> event list \<Rightarrow> bool" where
  "quiet n d r es =
     (pass_calls n d es \<and> (\<forall>e\<in>set es. ev_fail e = None \<and> step_rank (ev_call e) \<le> r))"

text \<open>
  The descriptor as the middle context of a double fork leaves it to the context it
  creates: both flags cleared, the parent-death signal set to 0 if it was not negative.
\<close>

definition second_pass_data :: "ExecTrampolineData \<Rightarrow> ExecTrampolineData" where
  "second_pass_data d =
     d\<lparr>flags := (flags d AND NOT (push_bit ETD_SETSID 1)) AND NOT (push_bit ETD_DOUBLEFORK 1),
       parent_signal := (if 0 \<le> parent_signal d then 0 else parent_signal d)\<rparr>"

text \<open>No failed call of context \<open>n\<close> in a step before step \<open>r\<close>.\<close>

definition no_failure_before :: "nat \<Rightarrow> nat \<Rightarrow> event list \<Rightarrow> bool" where
  "no_failure_before n r es =
     (\<forall>e\<in>set es. ev_ctx e = n \<and> step_rank (ev_call e) < r \<longrightarrow> ev_fail e = None)"

section \<open>Concrete runs\<close>

text \<open>
  An operating system in which every call succeeds: the context created by the caller
  has process id 100, the one a double fork creates has 101, and no \<^verbatim>\<open>waitpid\<close> finds
  a dead child.
\<close>

definition os_ok :: os where
  "os_ok =
     \<lparr>setsid_err = (\<lambda>n. None), prctl_err = (\<lambda>n s. None),
      clone_ret = (\<lambda>n f. Inr (100 + int n)),
      signal_err = (\<lambda>n k. None), getpid_ret = (\<lambda>n. 99 + int n),
      exec_err = (\<lambda>n. None), waitpid_ret = (\<lambda>k. 0)\<rparr>"

text \<open>The call \<^verbatim>\<open>cloneandexecve("/bin/true")\<close>.\<close>

definition plain_call :: call_args where
  "plain_call =
     \<lparr>arg_path = ''/bin/true'', arg_args = None, arg_env = None, arg_signal = None,
      arg_sibling = False, arg_search_path = False, arg_setsid = False,
      arg_doublefork = False, arg_sigign = None\<rparr>"

text \<open>The descriptor the caller builds for it.\<close>

definition plain_data :: ExecTrampolineData where
  "plain_data =
     \<lparr>path = ''/bin/true'', argv = [''/bin/true''], envp = None, flags = 0,
      parent_signal = - 1, sigign = 0, childpid = - 1, fun_name = None, error = - 1\<rparr>"

text \<open>
  The descriptor of a call that asks for everything: a new session, a double fork, the
  parent-death signal 15 and the dispositions of the signals 2, 9 and 19.
\<close>

definition full_data :: ExecTrampolineData where
  "full_data =
     plain_data\<lparr>flags := push_bit ETD_SETSID 1 OR push_bit ETD_DOUBLEFORK 1,
                parent_signal := 15,
                sigign := push_bit 1 1 OR push_bit 8 1 OR push_bit 18 1\<rparr>"

text \<open>The same operating system, but every \<^verbatim>\<open>exec\<close> fails with \<^verbatim>\<open>ENOENT\<close> (2).\<close>

definition os_enoent :: os where
  "os_enoent = os_ok\<lparr>exec_err := (\<lambda>n. Some 2)\<rparr>"



text \<open>An operating system in which every \<^verbatim>\<open>clone\<close> fails with \<^verbatim>\<open>EAGAIN\<close> (11).\<close>

definition os_eagain :: os where
  "os_eagain = os_ok\<lparr>clone_ret := (\<lambda>n f. Inl 11)\<rparr>"

section \<open>Properties of the signal-set codec\<close>

text \<open>
  An object that is no int but has an \<^verbatim>\<open>__index__\<close> method is a signal number, alone or
  as an element of a sequence; as the set of signals itself it is rejected, since
  \<^verbatim>\<open>PyLong_AsUnsignedLongLong\<close> does not use \<^verbatim>\<open>__index__\<close> and the object is not iterable.
\<close>

lemma index_object_as_signal:
  "signal_m1_convert (Some (PyIndexable t 15)) = Inr 15"
  "signal_0_convert (Some (PyIndexable t 15)) = Inr 15"
  "sigign_converter (Some (PyList [PyIndexable t 2])) = Inr 2"
  "sigign_converter (Some (PyIndexable (Inr True) 2)) = Inl (Raised TypeError)"
  by (simp_all add: signal_m1_convert_def signal_0_convert_def signal_x_convert_def
      pylong_to_signum_def sigign_converter_def LONG_MIN_def LONG_MAX_def NSIG_def
      shl_int_def INT_MAX_def)

text \<open>
  An element in \<open>[0, _NSIG]\<close> passes \<^verbatim>\<open>pylong_to_signum\<close>; the \<^verbatim>\<open>int\<close> shift of the
  constant 1 is defined for a count of at most 30 and undefined from 31 on.
\<close>

lemma pylong_to_signum_valid:
  "0 \<le> v \<Longrightarrow> v \<le> NSIG \<Longrightarrow> pylong_to_signum (PyLong v) = Inr v"
  by (simp add: pylong_to_signum_def LONG_MIN_def LONG_MAX_def NSIG_def)

lemma shl_int_one_defined:
  assumes "0 \<le> k" "k \<le> 30"
  shows "shl_int 1 k = Some (2 ^ nat k)"
proof -
  have "nat k \<le> 30" using assms by simp
  then have "(2::int) ^ nat k \<le> 2 ^ 30"
    by (intro power_increasing) simp_all
  then have "(2::int) ^ nat k \<le> INT_MAX"
    by (simp add: INT_MAX_def)
  then show ?thesis
    using assms by (simp add: shl_int_def)
qed

lemma shl_int_one_undefined: "31 \<le> k \<Longrightarrow> shl_int 1 k = None"
proof -
  assume a: "31 \<le> k"
  then have "31 \<le> nat k" by simp
  then have "(2::int) ^ 31 \<le> 2 ^ nat k"
    by (intro power_increasing) simp_all
  then have "\<not> (2::int) ^ nat k \<le> INT_MAX"
    by (simp add: INT_MAX_def)
  then show ?thesis by (simp add: shl_int_def)
qed

lemma bit_or_pow2_word64:
  "bit (accu OR word_of_int (2 ^ j) :: 64 word) k \<longleftrightarrow> bit accu k \<or> (k = j \<and> j < 64)"
  by (auto simp: bit_or_iff bit_exp_iff)

lemma sigign_iterate_small:
  assumes "\<forall>x\<in>set xs. 0 \<le> x \<and> x \<le> 31"
  shows "\<exists>mask. sigign_iterate (map PyLong xs) accu = Inr mask \<and>
           (\<forall>k. bit mask k \<longleftrightarrow> bit accu k \<or> (int k + 1 \<in> set xs))"
  using assms
proof (induction xs arbitrary: accu)
  case Nil
  then show ?case by simp
next
  case (Cons x xs)
  have x: "0 \<le> x" "x \<le> 31" and rest: "\<forall>y\<in>set xs. 0 \<le> y \<and> y \<le> 31"
    using Cons.prems by simp_all
  have sn: "pylong_to_signum (PyLong x) = Inr x"
    using x by (intro pylong_to_signum_valid) (simp_all add: NSIG_def)
  show ?case
  proof (cases "x > 0")
    case False
    then have x0: "x = 0" using x by simp
    obtain mask where m: "sigign_iterate (map PyLong xs) accu = Inr mask"
      "\<forall>k. bit mask k \<longleftrightarrow> bit accu k \<or> (int k + 1 \<in> set xs)"
      using Cons.IH[OF rest, of accu] by blast
    have step: "sigign_iterate (map PyLong (x # xs)) accu = Inr mask"
      using m(1) sn x0 by simp
    have "bit mask k \<longleftrightarrow> bit accu k \<or> (int k + 1 \<in> set (x # xs))" for k
      using m(2) x0 by simp
    with step show ?thesis by blast
  next
    case True
    have sh: "shl_int 1 (x - 1) = Some (2 ^ nat (x - 1))"
      using x True by (intro shl_int_one_defined) simp_all
    let ?accu = "accu OR word_of_int (2 ^ nat (x - 1))"
    obtain mask where m: "sigign_iterate (map PyLong xs) ?accu = Inr mask"
      "\<forall>k. bit mask k \<longleftrightarrow> bit ?accu k \<or> (int k + 1 \<in> set xs)"
      using Cons.IH[OF rest, of ?accu] by blast
    have step: "sigign_iterate (map PyLong (x # xs)) accu = Inr mask"
      using m(1) sn sh True by simp
    have "bit mask k \<longleftrightarrow> bit accu k \<or> (int k + 1 \<in> set (x # xs))" for k
    proof -
      have lt: "nat (x - 1) < 64" using x by simp
      have eq: "k = nat (x - 1) \<longleftrightarrow> int k + 1 = x" using True by auto
      have "bit mask k \<longleftrightarrow> bit accu k \<or> k = nat (x - 1) \<or> int k + 1 \<in> set xs"
        using m(2) lt unfolding bit_or_pow2_word64 by blast
      then show ?thesis
        unfolding eq by auto
    qed
    with step show ?thesis by blast
  qed
qed

lemma sigign_converter_small:
  assumes "\<forall>x\<in>set xs. 0 \<le> x \<and> x \<le> 31"
  shows "\<exists>mask. sigign_converter (Some (PyList (map PyLong xs))) = Inr mask \<and>
           (\<forall>k. bit mask k \<longleftrightarrow> int k + 1 \<in> set xs)"
proof (cases "xs = []")
  case True
  then show ?thesis by (simp add: sigign_converter_def)
next
  case False
  obtain mask where m: "sigign_iterate (map PyLong xs) 0 = Inr mask"
      "\<forall>k. bit mask k \<longleftrightarrow> bit (0::64 word) k \<or> (int k + 1 \<in> set xs)"
    using sigign_iterate_small[OF assms, of 0] by blast
  have "sigign_converter (Some (PyList (map PyLong xs))) = Inr mask"
    using False m(1) by (simp add: sigign_converter_def)
  with m(2) show ?thesis by simp
qed


text \<open>
  Claim C6, as stated, fails: for the boolean \<^verbatim>\<open>True\<close> the converter does not produce
  the full mask (the 64-bit word \<open>- 1\<close>, every bit set).
\<close>

theorem sigign_true_is_not_full_mask:
  "sigign_converter (Some (PyBool True)) \<noteq> Inr (- 1)"
  by (simp add: sigign_converter_def)

text \<open>
  Claim C6, amended: for \<^verbatim>\<open>True\<close> the converter produces the mask 1, the integer value
  of \<^verbatim>\<open>True\<close> taken as the mask (bit 0 only, signal 1); a truthy object that is neither an
  integer nor iterable is rejected with \<^verbatim>\<open>TypeError\<close>; an absent argument, \<^verbatim>\<open>None\<close>
  and every object whose truth value is false give the empty mask 0.
\<close>

theorem sigign_bare_values:
  "sigign_converter (Some (PyBool True)) = Inr 1 \<and>
   sigign_converter (Some (PyOther (Inr True))) = Inl (Raised TypeError) \<and>
   sigign_converter None = Inr 0 \<and>
   sigign_converter (Some PyNone) = Inr 0 \<and>
   (\<forall>obj. PyObject_IsTrue obj = Inr False \<longrightarrow> sigign_converter (Some obj) = Inr 0)"
proof -
  have "sigign_converter (Some obj) = Inr 0" if "PyObject_IsTrue obj = Inr False" for obj
    using that by (cases obj) (simp_all add: sigign_converter_def)
  then show ?thesis
    by (simp add: sigign_converter_def)
qed

text \<open>The falsy objects \<^verbatim>\<open>False\<close> and \<^verbatim>\<open>[]\<close> as instances.\<close>

theorem sigign_bare_values_witness:
  "PyObject_IsTrue (PyBool False) = Inr False \<and> sigign_converter (Some (PyBool False)) = Inr 0 \<and>
   PyObject_IsTrue (PyList []) = Inr False \<and> sigign_converter (Some (PyList [])) = Inr 0"
  using sigign_bare_values by simp

text \<open>
  Claim C7: every sequence of valid signal numbers is encoded with exactly the bits
  \<open>n - 1\<close> set, also for numbers greater than 32. The code does not do this for the
  sequence \<^verbatim>\<open>[33]\<close>: line 327 shifts the \<^verbatim>\<open>int\<close> constant 1 by 32, which is undefined,
  where the claim asks for the mask with bit 32 alone. (Up to signal 31 the encoding is
  as claimed: \<open>sigign_converter_small\<close>.)
\<close>

theorem sigign_signal_33_undefined:
  "sigign_converter (Some (PyList [PyLong 33])) = Inl UndefinedBehaviour \<and>
   sigign_converter (Some (PyList [PyLong 33])) \<noteq> Inr (push_bit 32 1)"
  by (simp add: sigign_converter_def pylong_to_signum_def LONG_MIN_def LONG_MAX_def NSIG_def
      shl_int_def INT_MAX_def)

text \<open>
  Claim C10: a truthy argument that \<^verbatim>\<open>PyLong_AsUnsignedLongLong\<close> converts is the mask,
  verbatim, with no range check and no per-signal encoding; a conversion that fails with
  anything but \<^verbatim>\<open>TypeError\<close> fails the converter; only after a \<^verbatim>\<open>TypeError\<close> is the
  argument iterated as a sequence of signal numbers.
\<close>

theorem sigign_integer_verbatim:
  assumes "PyObject_IsTrue obj = Inr True"
  shows "(\<forall>w. PyLong_AsUnsignedLongLong obj = Inr w \<longrightarrow> sigign_converter (Some obj) = Inr w) \<and>
         (\<forall>e. PyLong_AsUnsignedLongLong obj = Inl e \<and> e \<noteq> TypeError \<longrightarrow>
              sigign_converter (Some obj) = Inl (Raised e)) \<and>
         (PyLong_AsUnsignedLongLong obj = Inl TypeError \<longrightarrow>
            sigign_converter (Some obj) =
              (case PyObject_GetIter obj of
                 Inl e \<Rightarrow> Inl (Raised e)
               | Inr elems \<Rightarrow> sigign_iterate elems 0))"
  using assms by (cases obj) (simp_all add: sigign_converter_def)

text \<open>
  Instances: the int \<open>2 ^ 40\<close>, far outside the range of signal numbers, is the mask as
  it is; \<^verbatim>\<open>True\<close> is the mask 1; \<open>- 1\<close> fails with \<^verbatim>\<open>OverflowError\<close>; a list is iterated.
\<close>

theorem sigign_integer_verbatim_witness:
  "PyObject_IsTrue (PyLong (2 ^ 40)) = Inr True \<and>
   PyLong_AsUnsignedLongLong (PyLong (2 ^ 40)) = Inr (2 ^ 40) \<and>
   sigign_converter (Some (PyLong (2 ^ 40))) = Inr (2 ^ 40) \<and>
   pylong_to_signum (PyLong (2 ^ 40)) = Inl (Raised OverflowError) \<and>
   PyObject_IsTrue (PyBool True) = Inr True \<and>
   sigign_converter (Some (PyBool True)) = Inr 1 \<and>
   PyObject_IsTrue (PyLong (- 1)) = Inr True \<and>
   PyLong_AsUnsignedLongLong (PyLong (- 1)) = Inl OverflowError \<and>
   sigign_converter (Some (PyLong (- 1))) = Inl (Raised OverflowError) \<and>
   PyObject_IsTrue (PyList [PyLong 2]) = Inr True \<and>
   PyLong_AsUnsignedLongLong (PyList [PyLong 2]) = Inl TypeError \<and>
   sigign_converter (Some (PyList [PyLong 2])) = sigign_iterate [PyLong 2] 0"
  using sigign_integer_verbatim [of "PyLong (2 ^ 40)"] sigign_integer_verbatim [of "PyBool True"]
    sigign_integer_verbatim [of "PyLong (- 1)"] sigign_integer_verbatim [of "PyList [PyLong 2]"]
  by (simp add: pylong_to_signum_def LONG_MIN_def LONG_MAX_def NSIG_def)

section \<open>The loop over the mask\<close>

lemma bit_drop1: "bit (drop_bit (Suc 0) (w::64 word)) j \<longleftrightarrow> bit w (Suc j)"
  by (simp add: bit_drop_bit_eq del: drop_bit_Suc)

lemma has_bit0: "((w::64 word) AND 1 = 1) \<longleftrightarrow> bit w 0"
  by (simp add: and_one_eq bit_0 mod_2_eq_odd)

lemma signal_loop_unfold:
  "signal_loop os n d sg signum =
     (if \<not> bit sg 0 \<or> Suc signum = SIGKILL \<or> Suc signum = SIGSTOP then
        (if drop_bit (Suc 0) sg \<noteq> 0 then signal_loop os n d (drop_bit (Suc 0) sg) (Suc signum)
         else (None, []))
      else
        (case signal_err os n (Suc signum) of
           Some e \<Rightarrow> (Some e, [\<lparr>ev_ctx = n, ev_call = Signal_ign (Suc signum),
                                  ev_fail = Some e, ev_data = d\<rparr>])
         | None \<Rightarrow>
             if drop_bit (Suc 0) sg \<noteq> 0 then
               (fst (signal_loop os n d (drop_bit (Suc 0) sg) (Suc signum)),
                \<lparr>ev_ctx = n, ev_call = Signal_ign (Suc signum), ev_fail = None, ev_data = d\<rparr>
                  # snd (signal_loop os n d (drop_bit (Suc 0) sg) (Suc signum)))
             else (None, [\<lparr>ev_ctx = n, ev_call = Signal_ign (Suc signum),
                            ev_fail = None, ev_data = d\<rparr>])))"
  by (subst signal_loop.simps)
     (simp add: Let_def has_bit0 split: option.splits prod.splits del: drop_bit_Suc)

lemma drop_bit_1_less:
  fixes w :: "64 word"
  assumes "drop_bit (Suc 0) w \<noteq> 0"
  shows "unat (drop_bit (Suc 0) w) < unat w"
proof -
  have "unat (drop_bit (Suc 0) w) = unat w div 2"
    unfolding unat_drop_bit_eq by (simp add: drop_bit_eq_div)
  moreover have "unat w \<noteq> 0"
    using assms by (auto simp: unat_eq_0)
  ultimately show ?thesis by simp
qed

lemma mask_induct [case_names shift]:
  fixes P :: "64 word \<Rightarrow> nat \<Rightarrow> bool"
  assumes "\<And>sg signum.
     (drop_bit (Suc 0) sg \<noteq> 0 \<Longrightarrow> P (drop_bit (Suc 0) sg) (Suc signum)) \<Longrightarrow> P sg signum"
  shows "P sg signum"
proof (induction sg arbitrary: signum rule: measure_induct_rule [where f = unat])
  case (less sg)
  show ?case
    by (rule assms) (rule less, rule drop_bit_1_less)
qed

text \<open>What the loop calls: only set bits, never the two forbidden signals.\<close>

lemma signal_loop_sound:
  "\<forall>e\<in>set (snd (signal_loop os n d sg signum)).
     ev_ctx e = n \<and> ev_data e = d \<and>
     (\<exists>k. ev_call e = Signal_ign k \<and> signum < k \<and> k \<noteq> SIGKILL \<and> k \<noteq> SIGSTOP \<and>
          bit sg (k - Suc signum))"
proof (induction sg signum rule: mask_induct)
  case (shift sg signum)
  show ?case
  proof (cases "drop_bit (Suc 0) sg \<noteq> 0")
    case False
    then show ?thesis
      by (subst signal_loop_unfold) (auto split: option.splits)
  next
    case True
    have ih: "\<forall>e\<in>set (snd (signal_loop os n d (drop_bit (Suc 0) sg) (Suc signum))).
       ev_ctx e = n \<and> ev_data e = d \<and>
       (\<exists>k. ev_call e = Signal_ign k \<and> signum < k \<and> k \<noteq> SIGKILL \<and> k \<noteq> SIGSTOP \<and>
            bit sg (k - Suc signum))"
    proof
      fix e assume "e \<in> set (snd (signal_loop os n d (drop_bit (Suc 0) sg) (Suc signum)))"
      with shift[OF True] obtain k where k: "ev_ctx e = n" "ev_data e = d"
        "ev_call e = Signal_ign k" "Suc signum < k" "k \<noteq> SIGKILL" "k \<noteq> SIGSTOP"
        "bit (drop_bit (Suc 0) sg) (k - Suc (Suc signum))"
        by blast
      have "Suc (k - Suc (Suc signum)) = k - Suc signum" using k(4) by simp
      with k(7) have "bit sg (k - Suc signum)"
        unfolding bit_drop1 by simp
      with k show "ev_ctx e = n \<and> ev_data e = d \<and>
       (\<exists>k. ev_call e = Signal_ign k \<and> signum < k \<and> k \<noteq> SIGKILL \<and> k \<noteq> SIGSTOP \<and>
            bit sg (k - Suc signum))"
        by auto
    qed
    show ?thesis
      using ih True by (subst signal_loop_unfold) (auto split: option.splits)
  qed
qed

text \<open>A failed call ends the loop; when no call fails, no event carries a failure.\<close>

lemma signal_loop_failure:
  "(case fst (signal_loop os n d sg signum) of
      None \<Rightarrow> \<forall>e\<in>set (snd (signal_loop os n d sg signum)). ev_fail e = None
    | Some c \<Rightarrow>
        (\<exists>pre f. snd (signal_loop os n d sg signum) = pre @ [f] \<and>
           (\<forall>e\<in>set pre. ev_fail e = None) \<and> ev_fail f = Some c))"
proof (induction sg signum rule: mask_induct)
  case (shift sg signum)
  show ?case
  proof (cases "drop_bit (Suc 0) sg \<noteq> 0")
    case False
    then show ?thesis
      by (subst (1 2 3) signal_loop_unfold) (auto split: option.splits)
  next
    case True
    note ih = shift[OF True]
    show ?thesis
    proof (cases "\<not> bit sg 0 \<or> Suc signum = SIGKILL \<or> Suc signum = SIGSTOP")
      case skip: True
      have "signal_loop os n d sg signum = signal_loop os n d (drop_bit (Suc 0) sg) (Suc signum)"
        using skip True by (subst signal_loop_unfold) simp
      then show ?thesis
        using ih by (simp only:)
    next
      case call: False
      show ?thesis
      proof (cases "signal_err os n (Suc signum)")
        case (Some e)
        have "signal_loop os n d sg signum = (Some e, [\<lparr>ev_ctx = n, ev_call = Signal_ign (Suc signum),
                                  ev_fail = Some e, ev_data = d\<rparr>])"
          using call Some by (subst signal_loop_unfold) simp
        then show ?thesis by simp
      next
        case None
        let ?ev = "\<lparr>ev_ctx = n, ev_call = Signal_ign (Suc signum), ev_fail = None, ev_data = d\<rparr>"
        let ?r = "signal_loop os n d (drop_bit (Suc 0) sg) (Suc signum)"
        have eq: "signal_loop os n d sg signum = (fst ?r, ?ev # snd ?r)"
          using call None True by (subst signal_loop_unfold) simp
        show ?thesis
        proof (cases "fst ?r")
          case N: None
          with ih eq show ?thesis by simp
        next
          case S: (Some c)
          with ih obtain pre f where pf: "snd ?r = pre @ [f]" "\<forall>e\<in>set pre. ev_fail e = None"
            "ev_fail f = Some c"
            by auto
          have "snd (signal_loop os n d sg signum) = (?ev # pre) @ [f]"
            using eq pf(1) by simp
          moreover have "\<forall>e\<in>set (?ev # pre). ev_fail e = None"
            using pf(2) by simp
          ultimately show ?thesis
            using S eq pf(3) by (simp only: fst_conv option.case) blast
        qed
      qed
    qed
  qed
qed

text \<open>When no call fails, every set bit outside the two forbidden signals is called.\<close>

lemma signal_loop_complete:
  assumes "fst (signal_loop os n d sg signum) = None" "bit sg j"
    "Suc (signum + j) \<noteq> SIGKILL" "Suc (signum + j) \<noteq> SIGSTOP"
  shows "\<exists>e\<in>set (snd (signal_loop os n d sg signum)). ev_call e = Signal_ign (Suc (signum + j))"
  using assms
proof (induction sg signum arbitrary: j rule: mask_induct)
  case (shift sg signum)
  show ?case
  proof (cases j)
    case 0
    with shift.prems have b0: "bit sg 0" and nk: "Suc signum \<noteq> SIGKILL" "Suc signum \<noteq> SIGSTOP"
      by simp_all
    have "signal_err os n (Suc signum) = None"
      using shift.prems(1) b0 nk by (subst (asm) signal_loop_unfold) (auto split: option.splits)
    then show ?thesis
      using b0 nk 0 by (subst signal_loop_unfold) (auto split: option.splits)
  next
    case (Suc j')
    have bj: "bit (drop_bit (Suc 0) sg) j'"
      using shift.prems(2) Suc unfolding bit_drop1 by simp
    then have nz: "drop_bit (Suc 0) sg \<noteq> 0"
      by auto
    let ?r = "signal_loop os n d (drop_bit (Suc 0) sg) (Suc signum)"
    have step: "fst ?r = None \<and> set (snd ?r) \<subseteq> set (snd (signal_loop os n d sg signum))"
    proof (cases "\<not> bit sg 0 \<or> Suc signum = SIGKILL \<or> Suc signum = SIGSTOP")
      case True
      have "signal_loop os n d sg signum = ?r"
        using True nz by (subst signal_loop_unfold) simp
      with shift.prems(1) show ?thesis by simp
    next
      case False
      show ?thesis
      proof (cases "signal_err os n (Suc signum)")
        case (Some e)
        have "fst (signal_loop os n d sg signum) = Some e"
          using False Some by (subst signal_loop_unfold) simp
        with shift.prems(1) show ?thesis by simp
      next
        case None
        have "signal_loop os n d sg signum =
                (fst ?r, \<lparr>ev_ctx = n, ev_call = Signal_ign (Suc signum), ev_fail = None,
                            ev_data = d\<rparr> # snd ?r)"
          using False None nz by (subst signal_loop_unfold) simp
        with shift.prems(1) show ?thesis by auto
      qed
    qed
    have "\<exists>e\<in>set (snd ?r). ev_call e = Signal_ign (Suc (Suc signum + j'))"
      using shift.IH[OF nz _ bj] step shift.prems(3,4) Suc by simp
    with step have "\<exists>e\<in>set (snd (signal_loop os n d sg signum)).
        ev_call e = Signal_ign (Suc (Suc signum + j'))"
      by blast
    then show ?thesis
      using Suc by simp
  qed
qed

section \<open>The blocks of the trampoline\<close>

lemma setsid_block_cases [case_names skip ok failed]:
  obtains
    (skip) "flags (data m) AND push_bit ETD_SETSID 1 = 0"
           "setsid_block os n m = Inr (m, [])"
  | (ok) d where
      "d = (data m)\<lparr>flags := flags (data m) AND NOT (push_bit ETD_SETSID 1)\<rparr>"
      "setsid_block os n m =
         Inr (m\<lparr>data := d\<rparr>, [\<lparr>ev_ctx = n, ev_call = Setsid, ev_fail = None, ev_data = d\<rparr>])"
  | (failed) d e where
      "d = (data m)\<lparr>flags := flags (data m) AND NOT (push_bit ETD_SETSID 1)\<rparr>"
      "setsid_block os n m =
         Inl (''setsid'', m\<lparr>data := d, errno := e\<rparr>,
              [\<lparr>ev_ctx = n, ev_call = Setsid, ev_fail = Some e, ev_data = d\<rparr>])"
proof (cases "flags (data m) AND push_bit ETD_SETSID 1 = 0")
  case True
  then show ?thesis
    by (intro skip) (simp_all add: setsid_block_def)
next
  case False
  show ?thesis
  proof (cases "setsid_err os n")
    case None
    show ?thesis
      by (rule ok[OF refl]) (use False None in \<open>simp add: setsid_block_def Let_def\<close>)
  next
    case (Some e)
    show ?thesis
      by (rule failed[OF refl, of e]) (use False Some in \<open>simp add: setsid_block_def Let_def\<close>)
  qed
qed

lemma pdeathsig_block_cases [case_names skip ok failed]:
  obtains
    (skip) "parent_signal (data m) < 0"
           "pdeathsig_block os n m = Inr (m, [])"
  | (ok) d where
      "0 \<le> parent_signal (data m)"
      "d = (data m)\<lparr>parent_signal := 0\<rparr>"
      "pdeathsig_block os n m =
         Inr (m\<lparr>data := d\<rparr>,
              [\<lparr>ev_ctx = n, ev_call = Prctl_set_pdeathsig (parent_signal (data m)),
                ev_fail = None, ev_data = d\<rparr>])"
  | (failed) d e where
      "0 \<le> parent_signal (data m)"
      "d = (data m)\<lparr>parent_signal := 0\<rparr>"
      "pdeathsig_block os n m =
         Inl (''PR_SET_PDEATHSIG'', m\<lparr>data := d, errno := e\<rparr>,
              [\<lparr>ev_ctx = n, ev_call = Prctl_set_pdeathsig (parent_signal (data m)),
                ev_fail = Some e, ev_data = d\<rparr>])"
proof (cases "parent_signal (data m) < 0")
  case True
  then show ?thesis
    by (intro skip) (simp_all add: pdeathsig_block_def)
next
  case False
  then have ge: "0 \<le> parent_signal (data m)" by simp
  show ?thesis
  proof (cases "prctl_err os n (parent_signal (data m))")
    case None
    show ?thesis
      by (rule ok[OF ge refl]) (use ge None in \<open>simp add: pdeathsig_block_def Let_def\<close>)
  next
    case (Some e)
    show ?thesis
      by (rule failed[OF ge refl, of e]) (use ge Some in \<open>simp add: pdeathsig_block_def Let_def\<close>)
  qed
qed

lemma sigign_block_cases [case_names skip ok failed]:
  obtains
    (skip) "sigign (data m) = 0"
           "sigign_block os n m = Inr (m, [])"
  | (ok) d es where
      "sigign (data m) \<noteq> 0"
      "d = (data m)\<lparr>sigign := 0\<rparr>"
      "signal_loop os n d (sigign (data m)) 0 = (None, es)"
      "sigign_block os n m = Inr (m\<lparr>data := d\<rparr>, es)"
  | (failed) d e es where
      "sigign (data m) \<noteq> 0"
      "d = (data m)\<lparr>sigign := 0\<rparr>"
      "signal_loop os n d (sigign (data m)) 0 = (Some e, es)"
      "sigign_block os n m = Inl (''signal'', m\<lparr>data := d, errno := e\<rparr>, es)"
proof (cases "sigign (data m) = 0")
  case True
  then show ?thesis
    by (intro skip) (simp_all add: sigign_block_def)
next
  case False
  obtain r es where l: "signal_loop os n ((data m)\<lparr>sigign := 0\<rparr>) (sigign (data m)) 0 = (r, es)"
    by (cases "signal_loop os n ((data m)\<lparr>sigign := 0\<rparr>) (sigign (data m)) 0")
  show ?thesis
  proof (cases r)
    case None
    show ?thesis
      by (rule ok[OF False refl]) (use False l None in \<open>simp_all add: sigign_block_def Let_def\<close>)
  next
    case (Some e)
    show ?thesis
      by (rule failed[OF False refl, of e]) (use False l Some in \<open>simp_all add: sigign_block_def Let_def\<close>)
  qed
qed

lemma and_not_same_of_disjoint:
  fixes w b :: "32 word"
  assumes "w AND b = 0"
  shows "w AND NOT b = w"
proof (rule bit_eqI)
  fix k
  have "\<not> (bit w k \<and> bit b k)"
    using assms by (metis bit_and_iff bit_0_eq bot_apply bot_bool_def)
  then show "bit (w AND NOT b) k \<longleftrightarrow> bit w k"
    by (auto simp: bit_and_iff bit_not_iff dest: bit_imp_possible_bit)
qed

lemma and_not_clears:
  fixes w b :: "32 word"
  shows "(w AND NOT b) AND b = 0"
  by (simp add: and.assoc)

lemma and_not_other_bit:
  fixes w :: "32 word"
  assumes "i \<noteq> j"
  shows "(w AND NOT (push_bit i 1)) AND push_bit j 1 = w AND push_bit j 1"
proof (rule bit_eqI)
  fix k
  show "bit ((w AND NOT (push_bit i 1)) AND push_bit j 1) k \<longleftrightarrow> bit (w AND push_bit j 1) k"
    using assms by (auto simp: bit_and_iff bit_not_iff bit_exp_iff dest: bit_imp_le_length)
qed

lemma flag_bits_distinct:
  "ETD_SETSID \<noteq> ETD_DOUBLEFORK" "ETD_DOUBLEFORK \<noteq> ETD_SETSID"
  "ETD_SETSID \<noteq> ETD_SEARCH_PATH" "ETD_DOUBLEFORK \<noteq> ETD_SEARCH_PATH"
  by (simp_all add: ETD_SETSID_def ETD_DOUBLEFORK_def ETD_SEARCH_PATH_def)

lemma in_order_append:
  "in_order (xs @ ys) \<longleftrightarrow>
     in_order xs \<and> in_order ys \<and>
     (\<forall>x\<in>set xs. \<forall>y\<in>set ys.
        step_rank (ev_call x) < step_rank (ev_call y) \<or>
        (step_rank (ev_call x) = 4 \<and> step_rank (ev_call y) = 4))"
  by (simp add: in_order_def sorted_wrt_append)

lemma in_order_same_rank_4:
  "\<forall>e\<in>set es. step_rank (ev_call e) = 4 \<Longrightarrow> in_order es"
  unfolding in_order_def by (induction es) auto

lemma in_order_single [simp]: "in_order [e]" and in_order_Nil [simp]: "in_order []"
  by (simp_all add: in_order_def)

lemma quiet_Nil [simp]: "quiet n d r []"
  by (simp add: quiet_def pass_calls_def)

lemma quiet_mono: "quiet n d r es \<Longrightarrow> r \<le> r' \<Longrightarrow> quiet n d r' es"
  by (fastforce simp: quiet_def)

text \<open>Calls of a later step extend quiet calls.\<close>

lemma pass_calls_extend:
  assumes q: "quiet n d r es"
    and new: "\<forall>e\<in>set new. ev_ctx e = n \<and> trigger_cleared e \<and> call_justified d (ev_call e) \<and>
                r < step_rank (ev_call e) \<and> step_rank (ev_call e) \<le> 6"
    and ord: "in_order new"
    and bl: "\<forall>e\<in>set (butlast new). ev_fail e = None"
  shows "pass_calls n d (es @ new)"
proof -
  have o: "in_order (es @ new)"
    unfolding in_order_append using q new ord by (fastforce simp: quiet_def pass_calls_def)
  have b: "\<forall>e\<in>set (butlast (es @ new)). ev_fail e = None"
  proof (cases "new = []")
    case True
    then show ?thesis using q by (auto simp: quiet_def dest: in_set_butlastD)
  next
    case False
    then show ?thesis using q bl by (auto simp: quiet_def butlast_append)
  qed
  show ?thesis
    unfolding pass_calls_def using o b q new by (auto simp: quiet_def pass_calls_def)
qed

lemma quiet_extend:
  assumes q: "quiet n d r es"
    and new: "\<forall>e\<in>set new. ev_ctx e = n \<and> trigger_cleared e \<and> call_justified d (ev_call e) \<and>
                r < step_rank (ev_call e) \<and> step_rank (ev_call e) \<le> r' \<and> ev_fail e = None"
    and ord: "in_order new" and r': "r \<le> r'" "r' \<le> 6"
  shows "quiet n d r' (es @ new)"
proof -
  have "pass_calls n d (es @ new)"
    using q new ord r' by (intro pass_calls_extend[where r = r]) (auto dest: in_set_butlastD)
  then show ?thesis
    unfolding quiet_def using q new r' by (fastforce simp: quiet_def)
qed

lemma just_simps [simp]:
  "call_justified d Setsid \<longleftrightarrow> flags d AND push_bit ETD_SETSID 1 \<noteq> 0"
  "call_justified d (Prctl_set_pdeathsig s) \<longleftrightarrow> s = parent_signal d \<and> 0 \<le> s"
  "call_justified d (Clone f) \<longleftrightarrow> flags d AND push_bit ETD_DOUBLEFORK 1 \<noteq> 0"
  "call_justified d (Signal_ign k) \<longleftrightarrow>
     1 \<le> k \<and> k \<le> 64 \<and> k \<noteq> SIGKILL \<and> k \<noteq> SIGSTOP \<and> bit (sigign d) (k - 1)"
  "call_justified d Getpid" "call_justified d (Exec v)" "call_justified d Raise_SIGKILL"
  by (simp_all add: call_justified_def)

text \<open>The three guarded blocks: the state they leave and the calls they make.\<close>

lemma setsid_stage:
  "case setsid_block os n m of
     Inr (m1, es1) \<Rightarrow>
       m1 = m\<lparr>data := (data m)\<lparr>flags := flags (data m) AND NOT (push_bit ETD_SETSID 1)\<rparr>\<rparr> \<and>
       quiet n (data m) 1 es1 \<and>
       (flags (data m) AND push_bit ETD_SETSID 1 \<noteq> 0 \<longrightarrow> setsid_err os n = None \<and> es1 \<noteq> [])
   | Inl (fn, m1, es1) \<Rightarrow>
       \<exists>f c. es1 = [f] \<and> ev_ctx f = n \<and> ev_fail f = Some c \<and> trigger_cleared f \<and>
             call_justified (data m) (ev_call f) \<and> step_rank (ev_call f) = 1 \<and>
             fn = call_name (ev_call f) \<and> errno m1 = c \<and> data m1 = ev_data f \<and>
             setsid_err os n = Some c"
proof (cases os n m rule: setsid_block_cases)
  case skip
  then show ?thesis
    by (simp add: and_not_same_of_disjoint)
next
  case (ok d)
  have "flags (data m) AND push_bit ETD_SETSID 1 \<noteq> 0 \<and> setsid_err os n = None"
    using ok(2) by (auto simp: setsid_block_def Let_def split: if_splits option.splits)
  then show ?thesis
    using ok by (simp add: quiet_def pass_calls_def and_not_clears)
next
  case (failed d e)
  have "flags (data m) AND push_bit ETD_SETSID 1 \<noteq> 0 \<and> setsid_err os n = Some e"
    using failed(2) by (auto simp: setsid_block_def Let_def split: if_splits option.splits)
  then show ?thesis
    using failed by (simp add: and_not_clears)
qed

lemma pdeathsig_stage:
  "case pdeathsig_block os n m of
     Inr (m1, es1) \<Rightarrow>
       m1 = m\<lparr>data := (data m)\<lparr>parent_signal :=
               (if 0 \<le> parent_signal (data m) then 0 else parent_signal (data m))\<rparr>\<rparr> \<and>
       (\<forall>e\<in>set es1. ev_ctx e = n \<and> trigger_cleared e \<and> call_justified (data m) (ev_call e) \<and>
                     step_rank (ev_call e) = 2 \<and> ev_fail e = None) \<and>
       length es1 \<le> 1 \<and>
       (0 \<le> parent_signal (data m) \<longrightarrow>
          prctl_err os n (parent_signal (data m)) = None \<and>
          es1 = [\<lparr>ev_ctx = n, ev_call = Prctl_set_pdeathsig (parent_signal (data m)),
                  ev_fail = None, ev_data = data m1\<rparr>])
   | Inl (fn, m1, es1) \<Rightarrow>
       \<exists>f c. es1 = [f] \<and> ev_ctx f = n \<and> ev_fail f = Some c \<and> trigger_cleared f \<and>
             call_justified (data m) (ev_call f) \<and> step_rank (ev_call f) = 2 \<and>
             fn = call_name (ev_call f) \<and> errno m1 = c \<and> data m1 = ev_data f \<and>
             prctl_err os n (parent_signal (data m)) = Some c"
proof (cases os n m rule: pdeathsig_block_cases)
  case skip
  then show ?thesis by simp
next
  case (ok d)
  have "prctl_err os n (parent_signal (data m)) = None"
    using ok(1,3) by (auto simp: pdeathsig_block_def Let_def split: if_splits option.splits)
  then show ?thesis
    using ok by simp
next
  case (failed d e)
  have "prctl_err os n (parent_signal (data m)) = Some e"
    using failed(1,3) by (auto simp: pdeathsig_block_def Let_def split: if_splits option.splits)
  then show ?thesis
    using failed by simp
qed

lemma signal_loop_events:
  assumes "signal_loop os n d sg 0 = (r, es)" "sigign d = 0"
  shows "\<forall>e\<in>set es. ev_ctx e = n \<and> trigger_cleared e \<and> step_rank (ev_call e) = 4 \<and>
           (\<exists>k. ev_call e = Signal_ign k \<and> 1 \<le> k \<and> k \<le> 64 \<and> k \<noteq> SIGKILL \<and> k \<noteq> SIGSTOP \<and>
                bit sg (k - 1))"
proof
  fix e assume "e \<in> set es"
  with signal_loop_sound[of os n d sg 0] assms(1) obtain k where
    k: "ev_ctx e = n" "ev_data e = d" "ev_call e = Signal_ign k" "0 < k" "k \<noteq> SIGKILL"
       "k \<noteq> SIGSTOP" "bit sg (k - Suc 0)"
    by auto
  have "k - Suc 0 < 64"
    using bit_imp_le_length[OF k(7)] by simp
  then have "k \<le> 64" using k(4) by simp
  with k assms(2) show "ev_ctx e = n \<and> trigger_cleared e \<and> step_rank (ev_call e) = 4 \<and>
           (\<exists>k. ev_call e = Signal_ign k \<and> 1 \<le> k \<and> k \<le> 64 \<and> k \<noteq> SIGKILL \<and> k \<noteq> SIGSTOP \<and>
                bit sg (k - 1))"
    by simp
qed

lemma sigign_stage:
  "case sigign_block os n m of
     Inr (m1, es1) \<Rightarrow>
       m1 = m\<lparr>data := (data m)\<lparr>sigign := 0\<rparr>\<rparr> \<and>
       (\<forall>e\<in>set es1. ev_ctx e = n \<and> trigger_cleared e \<and> call_justified (data m) (ev_call e) \<and>
                     step_rank (ev_call e) = 4 \<and> ev_fail e = None) \<and>
       (\<forall>k. call_justified (data m) (Signal_ign k) \<longrightarrow> (\<exists>e\<in>set es1. ev_call e = Signal_ign k))
   | Inl (fn, m1, es1) \<Rightarrow>
       \<exists>pre f c. es1 = pre @ [f] \<and>
             (\<forall>e\<in>set (pre @ [f]). ev_ctx e = n \<and> trigger_cleared e \<and>
                     call_justified (data m) (ev_call e) \<and> step_rank (ev_call e) = 4) \<and>
             (\<forall>e\<in>set pre. ev_fail e = None) \<and> ev_fail f = Some c \<and>
             fn = call_name (ev_call f) \<and> errno m1 = c \<and> data m1 = ev_data f"
proof (cases os n m rule: sigign_block_cases)
  case skip
  then show ?thesis by simp
next
  case (ok d es)
  have ev: "\<forall>e\<in>set es. ev_ctx e = n \<and> trigger_cleared e \<and> step_rank (ev_call e) = 4 \<and>
           (\<exists>k. ev_call e = Signal_ign k \<and> 1 \<le> k \<and> k \<le> 64 \<and> k \<noteq> SIGKILL \<and> k \<noteq> SIGSTOP \<and>
                bit (sigign (data m)) (k - 1))"
    using signal_loop_events[OF ok(3)] ok(2) by simp
  have nofail: "\<forall>e\<in>set es. ev_fail e = None"
    using signal_loop_failure[of os n d "sigign (data m)" 0] ok(3) by simp
  have compl: "\<exists>e\<in>set es. ev_call e = Signal_ign k" if "call_justified (data m) (Signal_ign k)" for k
  proof -
    from that have k: "1 \<le> k" "k \<noteq> SIGKILL" "k \<noteq> SIGSTOP" "bit (sigign (data m)) (k - 1)"
      by simp_all
    have "\<exists>e\<in>set (snd (signal_loop os n d (sigign (data m)) 0)).
            ev_call e = Signal_ign (Suc (0 + (k - 1)))"
      using k ok(3) by (intro signal_loop_complete) simp_all
    then show ?thesis using k(1) ok(3) by simp
  qed
  have "\<forall>e\<in>set es. call_justified (data m) (ev_call e)"
    using ev by fastforce
  with ev nofail compl ok show ?thesis
    by simp
next
  case (failed d c es)
  have ev: "\<forall>e\<in>set es. ev_ctx e = n \<and> trigger_cleared e \<and> step_rank (ev_call e) = 4 \<and>
           (\<exists>k. ev_call e = Signal_ign k \<and> 1 \<le> k \<and> k \<le> 64 \<and> k \<noteq> SIGKILL \<and> k \<noteq> SIGSTOP \<and>
                bit (sigign (data m)) (k - 1))"
    using signal_loop_events[OF failed(3)] failed(2) by simp
  then have j: "\<forall>e\<in>set es. call_justified (data m) (ev_call e)"
    by fastforce
  obtain pre f where pf: "es = pre @ [f]" "\<forall>e\<in>set pre. ev_fail e = None" "ev_fail f = Some c"
    using signal_loop_failure[of os n d "sigign (data m)" 0] failed(3) by auto
  have "f \<in> set es" using pf(1) by simp
  with signal_loop_sound[of os n d "sigign (data m)" 0] failed(3)
  have fd: "ev_data f = d" "\<exists>k. ev_call f = Signal_ign k"
    by auto
  have "\<forall>e\<in>set (pre @ [f]). ev_ctx e = n \<and> trigger_cleared e \<and>
                     call_justified (data m) (ev_call e) \<and> step_rank (ev_call e) = 4"
    using ev j pf(1) by simp
  moreover have "''signal'' = call_name (ev_call f)"
    using fd(2) by auto
  ultimately show ?thesis
    using failed(4) pf fd(1) by simp
qed

lemma goto_fail_record:
  assumes "ev_fail f = Some c" "ev_ctx f = n" "errno m1 = c" "data m1 = ev_data f"
  shows "goto_fail n (Some (call_name (ev_call f))) m1 (es @ [f]) =
           (Killed, m1\<lparr>data := ev_data (failure_record f c)\<rparr>, es @ [f, failure_record f c])"
  using assms by (simp add: goto_fail_def failure_record_def Let_def)

text \<open>The last block: the own process id is recorded, then the image is replaced or not.\<close>

lemma exec_stage:
  "\<exists>g x. ev_ctx g = n \<and> ev_call g = Getpid \<and> ev_fail g = None \<and>
         ev_ctx x = n \<and> is_exec (ev_call x) \<and> ev_fail x = exec_err os n \<and>
         ev_data x = (data m)\<lparr>childpid := getpid_ret os n\<rparr> \<and>
         exec_block os n m es =
           (case exec_err os n of
              None \<Rightarrow> (ImageReplaced, m\<lparr>data := ev_data x\<rparr>, es @ [g, x])
            | Some c \<Rightarrow>
                (Killed, m\<lparr>data := ev_data (failure_record x c), errno := c\<rparr>,
                 es @ [g, x, failure_record x c]))"
proof -
  let ?d = "(data m)\<lparr>childpid := getpid_ret os n\<rparr>"
  let ?g = "\<lparr>ev_ctx = n, ev_call = Getpid, ev_fail = None, ev_data = data m\<rparr>"
  obtain call fn where cf:
    "(if envp ?d \<noteq> None then
        (if flags ?d AND push_bit ETD_SEARCH_PATH 1 \<noteq> 0 then (Execvpe, ''execvpe'')
         else (Execve, ''execve''))
      else
        (if flags ?d AND push_bit ETD_SEARCH_PATH 1 \<noteq> 0 then (Execvp, ''execvp'')
         else (Execv, ''execv''))) = (call, fn)"
    by fastforce
  then have name: "fn = call_name (Exec call)"
    by (auto split: if_splits)
  let ?x = "\<lparr>ev_ctx = n, ev_call = Exec call, ev_fail = exec_err os n, ev_data = ?d\<rparr>"
  have blk: "exec_block os n m es =
      (case exec_err os n of
         None \<Rightarrow> (ImageReplaced, m\<lparr>data := ?d\<rparr>, es @ [?g, ?x])
       | Some e \<Rightarrow> goto_fail n (Some fn) (m\<lparr>data := ?d, errno := e\<rparr>) (es @ [?g, ?x]))"
    unfolding exec_block_def Let_def cf by simp
  have "exec_block os n m es =
           (case exec_err os n of
              None \<Rightarrow> (ImageReplaced, m\<lparr>data := ev_data ?x\<rparr>, es @ [?g, ?x])
            | Some c \<Rightarrow>
                (Killed, m\<lparr>data := ev_data (failure_record ?x c), errno := c\<rparr>,
                 es @ [?g, ?x, failure_record ?x c]))"
  proof (cases "exec_err os n")
    case None
    then show ?thesis using blk by simp
  next
    case (Some c)
    have "goto_fail n (Some (call_name (ev_call ?x))) (m\<lparr>data := ?d, errno := c\<rparr>) ((es @ [?g]) @ [?x])
        = (Killed, (m\<lparr>data := ?d, errno := c\<rparr>)\<lparr>data := ev_data (failure_record ?x c)\<rparr>,
           (es @ [?g]) @ [?x, failure_record ?x c])"
      by (rule goto_fail_record) (simp_all add: Some)
    then show ?thesis
      using blk Some name by simp
  qed
  moreover have "is_exec (ev_call ?x)"
    by (simp add: is_exec_def)
  ultimately show ?thesis
    by (intro exI[of _ ?g] exI[of _ ?x]) simp
qed

section \<open>The shape of a run\<close>

lemma failed_call_ends_pass:
  assumes q: "quiet n d r es"
    and new: "\<forall>e\<in>set (pre @ [f]). ev_ctx e = n \<and> trigger_cleared e \<and>
                call_justified d (ev_call e) \<and> r < step_rank (ev_call e) \<and>
                step_rank (ev_call e) \<le> 6"
    and ord: "in_order (pre @ [f])"
    and ok: "\<forall>e\<in>set pre. ev_fail e = None"
    and f: "ev_fail f = Some c" "errno m1 = c" "data m1 = ev_data f"
    and res: "res = goto_fail n (Some (call_name (ev_call f))) m1 (es @ pre @ [f])"
  shows "\<exists>calls. calls \<noteq> [] \<and> pass_calls n d calls \<and> ev_fail (last calls) = Some c \<and>
           outcome_of res = Killed \<and> trace_of res = calls @ [failure_record (last calls) c] \<and>
           final_data res = ev_data (failure_record (last calls) c) \<and>
           errno (fst (snd res)) = c \<and> (\<exists>pre'. calls = es @ pre')"
proof -
  let ?calls = "es @ pre @ [f]"
  have pc: "pass_calls n d ?calls"
    using q new ord ok by (intro pass_calls_extend[where r = r]) simp_all
  have "ev_ctx f = n" using new by simp
  then have "goto_fail n (Some (call_name (ev_call f))) m1 ((es @ pre) @ [f]) =
           (Killed, m1\<lparr>data := ev_data (failure_record f c)\<rparr>, (es @ pre) @ [f, failure_record f c])"
    using f by (intro goto_fail_record) simp_all
  then have "res = (Killed, m1\<lparr>data := ev_data (failure_record f c)\<rparr>, ?calls @ [failure_record f c])"
    using res by simp
  then have "outcome_of res = Killed \<and> trace_of res = ?calls @ [failure_record (last ?calls) c] \<and>
           final_data res = ev_data (failure_record (last ?calls) c) \<and> errno (fst (snd res)) = c"
    using f(2) by (simp add: outcome_of_def trace_of_def final_data_def)
  with pc f(1) show ?thesis
    by (intro exI[of _ ?calls]) simp
qed

text \<open>
  One pass with the double-fork flag clear: its calls, and how it ends. Either the last
  call failed and is followed by its failure record, or the last call is the \<^verbatim>\<open>exec\<close>
  that replaced the image.
\<close>

lemma single_pass:
  assumes nodf: "flags (data m) AND push_bit ETD_DOUBLEFORK 1 = 0"
  shows "\<exists>calls. calls \<noteq> [] \<and> pass_calls n (data m) calls \<and>
     (case ev_fail (last calls) of
        Some c \<Rightarrow>
          outcome_of (exec_trampoline os n m) = Killed \<and>
          trace_of (exec_trampoline os n m) = calls @ [failure_record (last calls) c] \<and>
          final_data (exec_trampoline os n m) = ev_data (failure_record (last calls) c)
      | None \<Rightarrow>
          outcome_of (exec_trampoline os n m) = ImageReplaced \<and>
          trace_of (exec_trampoline os n m) = calls \<and>
          is_exec (ev_call (last calls)) \<and>
          final_data (exec_trampoline os n m) = ev_data (last calls) \<and>
          (\<forall>k. call_justified (data m) (Signal_ign k) \<longrightarrow>
               (\<exists>e\<in>set calls. ev_call e = Signal_ign k)))"
    (is "\<exists>calls. ?P calls")
proof -
  let ?res = "exec_trampoline os n m"
  have fin: "?P calls"
    if "calls \<noteq> []" "pass_calls n (data m) calls" "ev_fail (last calls) = Some c"
      "outcome_of ?res = Killed" "trace_of ?res = calls @ [failure_record (last calls) c]"
      "final_data ?res = ev_data (failure_record (last calls) c)" for calls c
    using that by simp
  show ?thesis
  proof (cases "setsid_block os n m")
    case (Inl a)
    obtain fn m1 es1 where a: "a = (fn, m1, es1)" by (cases a)
    from setsid_stage[where os = os and n = n and m = m] Inl a obtain f c where
      f: "es1 = [f]" "ev_ctx f = n" "ev_fail f = Some c" "trigger_cleared f"
         "call_justified (data m) (ev_call f)" "step_rank (ev_call f) = 1"
         "fn = call_name (ev_call f)" "errno m1 = c" "data m1 = ev_data f"
      by auto
    have res: "?res = goto_fail n (Some (call_name (ev_call f))) m1 ([] @ [] @ [f])"
      using Inl a f(1,7) by (subst exec_trampoline.simps) simp
    from failed_call_ends_pass[OF quiet_Nil[of n "data m" 0] _ _ _ f(3,8,9) res] f
    obtain calls where "calls \<noteq> []" "pass_calls n (data m) calls" "ev_fail (last calls) = Some c"
      "outcome_of ?res = Killed" "trace_of ?res = calls @ [failure_record (last calls) c]"
      "final_data ?res = ev_data (failure_record (last calls) c)"
      by auto
    from fin[OF this] show ?thesis ..
  next
    case (Inr b)
    obtain m1 es1 where b: "b = (m1, es1)" by (cases b)
    from setsid_stage[where os = os and n = n and m = m] Inr b have
      m1: "m1 = m\<lparr>data := (data m)\<lparr>flags := flags (data m) AND NOT (push_bit ETD_SETSID 1)\<rparr>\<rparr>"
      and q1: "quiet n (data m) 1 es1"
      by auto
    have ps1: "parent_signal (data m1) = parent_signal (data m)"
      and sg1: "sigign (data m1) = sigign (data m)"
      by (simp_all add: m1)
    show ?thesis
    proof (cases "pdeathsig_block os n m1")
      case (Inl a)
      obtain fn m2 es2 where a: "a = (fn, m2, es2)" by (cases a)
      from pdeathsig_stage[where os = os and n = n and m = m1] Inl a obtain f c where
        f: "es2 = [f]" "ev_ctx f = n" "ev_fail f = Some c" "trigger_cleared f"
           "call_justified (data m1) (ev_call f)" "step_rank (ev_call f) = 2"
           "fn = call_name (ev_call f)" "errno m2 = c" "data m2 = ev_data f"
        by auto
      have j: "call_justified (data m) (ev_call f)"
        using f(5,6) ps1 by (cases "ev_call f") simp_all
      have res: "?res = goto_fail n (Some (call_name (ev_call f))) m2 (es1 @ [] @ [f])"
        using Inr b Inl a f(1,7) by (subst exec_trampoline.simps) simp
      from failed_call_ends_pass[OF q1 _ _ _ f(3,8,9) res] f j
      obtain calls where "calls \<noteq> []" "pass_calls n (data m) calls" "ev_fail (last calls) = Some c"
        "outcome_of ?res = Killed" "trace_of ?res = calls @ [failure_record (last calls) c]"
        "final_data ?res = ev_data (failure_record (last calls) c)"
        by auto
      from fin[OF this] show ?thesis ..
    next
      case Inr2: (Inr b2)
      obtain m2 es2 where b2: "b2 = (m2, es2)" by (cases b2)
      from pdeathsig_stage[where os = os and n = n and m = m1] Inr2 b2 have
        m2: "m2 = m1\<lparr>data := (data m1)\<lparr>parent_signal :=
               (if 0 \<le> parent_signal (data m1) then 0 else parent_signal (data m1))\<rparr>\<rparr>"
        and e2: "\<forall>e\<in>set es2. ev_ctx e = n \<and> trigger_cleared e \<and>
                   call_justified (data m1) (ev_call e) \<and> step_rank (ev_call e) = 2 \<and>
                   ev_fail e = None"
        and l2: "length es2 \<le> 1"
        by auto
      have j2: "\<forall>e\<in>set es2. call_justified (data m) (ev_call e)"
      proof
        fix e assume "e \<in> set es2"
        with e2 have "call_justified (data m1) (ev_call e)" "step_rank (ev_call e) = 2" by auto
        then show "call_justified (data m) (ev_call e)"
          using ps1 by (cases "ev_call e") simp_all
      qed
      have o2: "in_order es2"
        using l2 by (cases es2) simp_all
      have q2: "quiet n (data m) 2 (es1 @ es2)"
        by (rule quiet_extend[where r = 1]) (use q1 e2 j2 o2 in auto)
      have fl2: "flags (data m2) = flags (data m) AND NOT (push_bit ETD_SETSID 1)"
        and sg2: "sigign (data m2) = sigign (data m)"
        by (simp_all add: m2 m1)
      have nodf2: "flags (data m2) AND push_bit ETD_DOUBLEFORK 1 = 0"
        unfolding fl2 using nodf and_not_other_bit[OF flag_bits_distinct(1), of "flags (data m)"]
        by simp
      show ?thesis
      proof (cases "sigign_block os n m2")
        case (Inl a)
        obtain fn m4 es4 where a: "a = (fn, m4, es4)" by (cases a)
        from sigign_stage[where os = os and n = n and m = m2] Inl a obtain pre f c where
          f: "es4 = pre @ [f]"
             "\<forall>e\<in>set (pre @ [f]). ev_ctx e = n \<and> trigger_cleared e \<and>
                     call_justified (data m2) (ev_call e) \<and> step_rank (ev_call e) = 4"
             "\<forall>e\<in>set pre. ev_fail e = None" "ev_fail f = Some c"
             "fn = call_name (ev_call f)" "errno m4 = c" "data m4 = ev_data f"
          by auto
        have j: "\<forall>e\<in>set (pre @ [f]). call_justified (data m) (ev_call e)"
        proof
          fix e assume "e \<in> set (pre @ [f])"
          with f(2) have "call_justified (data m2) (ev_call e)" "step_rank (ev_call e) = 4" by auto
          then show "call_justified (data m) (ev_call e)"
            using sg2 by (cases "ev_call e") simp_all
        qed
        have o: "in_order (pre @ [f])"
          using f(2) by (intro in_order_same_rank_4) simp
        have new: "\<forall>e\<in>set (pre @ [f]). ev_ctx e = n \<and> trigger_cleared e \<and>
                call_justified (data m) (ev_call e) \<and> 2 < step_rank (ev_call e) \<and>
                step_rank (ev_call e) \<le> 6"
          using f(2) j by auto
        have res: "?res = goto_fail n (Some (call_name (ev_call f))) m4 ((es1 @ es2) @ pre @ [f])"
          using Inr b Inr2 b2 Inl a f(1,5) nodf2 by (subst exec_trampoline.simps) simp
        from failed_call_ends_pass[OF q2 new o f(3,4,6,7) res]
        obtain calls where "calls \<noteq> []" "pass_calls n (data m) calls" "ev_fail (last calls) = Some c"
          "outcome_of ?res = Killed" "trace_of ?res = calls @ [failure_record (last calls) c]"
          "final_data ?res = ev_data (failure_record (last calls) c)"
          by blast
        from fin[OF this] show ?thesis ..
      next
        case Inr4: (Inr b4)
        obtain m4 es4 where b4: "b4 = (m4, es4)" by (cases b4)
        from sigign_stage[where os = os and n = n and m = m2] Inr4 b4 have
          e4: "\<forall>e\<in>set es4. ev_ctx e = n \<and> trigger_cleared e \<and>
                 call_justified (data m2) (ev_call e) \<and> step_rank (ev_call e) = 4 \<and>
                 ev_fail e = None"
          and c4: "\<forall>k. call_justified (data m2) (Signal_ign k) \<longrightarrow>
                      (\<exists>e\<in>set es4. ev_call e = Signal_ign k)"
          by auto
        have j4: "\<forall>e\<in>set es4. call_justified (data m) (ev_call e)"
        proof
          fix e assume "e \<in> set es4"
          with e4 have "call_justified (data m2) (ev_call e)" "step_rank (ev_call e) = 4" by auto
          then show "call_justified (data m) (ev_call e)"
            using sg2 by (cases "ev_call e") simp_all
        qed
        have o4: "in_order es4"
          using e4 by (intro in_order_same_rank_4) simp
        have q4: "quiet n (data m) 4 ((es1 @ es2) @ es4)"
          by (rule quiet_extend[where r = 2]) (use q2 e4 j4 o4 in auto)
        have compl: "\<forall>k. call_justified (data m) (Signal_ign k) \<longrightarrow>
                      (\<exists>e\<in>set es4. ev_call e = Signal_ign k)"
          using c4 sg2 by simp
        have res0: "?res = exec_block os n m4 ((es1 @ es2) @ es4)"
          using Inr b Inr2 b2 Inr4 b4 nodf2 by (subst exec_trampoline.simps) simp
        obtain g x where gx: "ev_ctx g = n" "ev_call g = Getpid" "ev_fail g = None"
          "ev_ctx x = n" "is_exec (ev_call x)" "ev_fail x = exec_err os n"
          and blk: "exec_block os n m4 ((es1 @ es2) @ es4) =
           (case exec_err os n of
              None \<Rightarrow> (ImageReplaced, m4\<lparr>data := ev_data x\<rparr>, ((es1 @ es2) @ es4) @ [g, x])
            | Some c \<Rightarrow>
                (Killed, m4\<lparr>data := ev_data (failure_record x c), errno := c\<rparr>,
                 ((es1 @ es2) @ es4) @ [g, x, failure_record x c]))"
          using exec_stage[where os = os and n = n and m = m4 and es = "(es1 @ es2) @ es4"] by blast
        obtain v where v: "ev_call x = Exec v"
          using gx(5) by (cases "ev_call x") (simp_all add: is_exec_def)
        let ?calls = "((es1 @ es2) @ es4) @ [g, x]"
        have ogx: "in_order [g, x]"
          using gx(2) v by (simp add: in_order_def)
        have pc: "pass_calls n (data m) ?calls"
          using q4 gx v ogx by (intro pass_calls_extend[where r = 4]) auto
        show ?thesis
        proof (cases "exec_err os n")
          case None
          have "?res = (ImageReplaced, m4\<lparr>data := ev_data x\<rparr>, ?calls)"
            using res0 blk None by simp
          then have "outcome_of ?res = ImageReplaced \<and> trace_of ?res = ?calls \<and>
                     final_data ?res = ev_data (last ?calls)"
            by (simp add: outcome_of_def trace_of_def final_data_def)
          moreover have "ev_fail (last ?calls) = None" "is_exec (ev_call (last ?calls))"
            using gx None by simp_all
          moreover have "\<forall>k. call_justified (data m) (Signal_ign k) \<longrightarrow>
               (\<exists>e\<in>set ?calls. ev_call e = Signal_ign k)"
            using compl by auto
          ultimately have "?P ?calls"
            using pc by simp
          then show ?thesis ..
        next
          case (Some c)
          have "?res = (Killed, m4\<lparr>data := ev_data (failure_record x c), errno := c\<rparr>,
                        ?calls @ [failure_record x c])"
            using res0 blk Some by simp
          then have "outcome_of ?res = Killed \<and>
                     trace_of ?res = ?calls @ [failure_record (last ?calls) c] \<and>
                     final_data ?res = ev_data (failure_record (last ?calls) c)"
            by (simp add: outcome_of_def trace_of_def final_data_def)
          moreover have "ev_fail (last ?calls) = Some c"
            using gx Some by simp
          ultimately have "?P ?calls"
            using pc by simp
          then show ?thesis ..
        qed
      qed
    qed
  qed
qed

text \<open>
  One pass with the double-fork flag set: the calls of the middle context end with a
  failed call and its failure record, or with the successful \<^verbatim>\<open>clone\<close>, after which
  come the run of the new context on the descriptor as it stood at the \<^verbatim>\<open>clone\<close> and
  the \<^verbatim>\<open>raise(SIGKILL)\<close> of the middle context with \<^verbatim>\<open>fun\<close> reset to \<^verbatim>\<open>NULL\<close>.
\<close>

lemma double_pass:
  assumes df: "flags (data m) AND push_bit ETD_DOUBLEFORK 1 \<noteq> 0"
  shows "\<exists>calls. calls \<noteq> [] \<and> pass_calls n (data m) calls \<and>
     (\<forall>e\<in>set calls. step_rank (ev_call e) \<le> 3) \<and>
     (case ev_fail (last calls) of
        Some c \<Rightarrow>
          outcome_of (exec_trampoline os n m) = Killed \<and>
          trace_of (exec_trampoline os n m) = calls @ [failure_record (last calls) c] \<and>
          final_data (exec_trampoline os n m) = ev_data (failure_record (last calls) c)
      | None \<Rightarrow>
          is_clone (ev_call (last calls)) \<and>
          ev_data (last calls) =
            (data m)\<lparr>flags := (flags (data m) AND NOT (push_bit ETD_SETSID 1))
                                 AND NOT (push_bit ETD_DOUBLEFORK 1),
                      parent_signal :=
                        (if 0 \<le> parent_signal (data m) then 0 else parent_signal (data m))\<rparr> \<and>
          outcome_of (exec_trampoline os n m) = Killed \<and>
          trace_of (exec_trampoline os n m) =
            calls @ trace_of (exec_trampoline os (Suc n) (m\<lparr>data := ev_data (last calls)\<rparr>)) @
            [\<lparr>ev_ctx = n, ev_call = Raise_SIGKILL, ev_fail = None,
              ev_data = final_data (exec_trampoline os n m)\<rparr>] \<and>
          final_data (exec_trampoline os n m) =
            (final_data (exec_trampoline os (Suc n) (m\<lparr>data := ev_data (last calls)\<rparr>)))
              \<lparr>fun_name := None,
               error := errno (fst (snd (exec_trampoline os (Suc n)
                                           (m\<lparr>data := ev_data (last calls)\<rparr>))))\<rparr>)"
    (is "\<exists>calls. ?P calls")
proof -
  let ?res = "exec_trampoline os n m"
  have fin: "?P calls"
    if "calls \<noteq> []" "pass_calls n (data m) calls" "ev_fail (last calls) = Some c"
      "outcome_of ?res = Killed" "trace_of ?res = calls @ [failure_record (last calls) c]"
      "final_data ?res = ev_data (failure_record (last calls) c)"
      "\<forall>e\<in>set calls. step_rank (ev_call e) \<le> 3" for calls c
    using that by simp
  show ?thesis
  proof (cases "setsid_block os n m")
    case (Inl a)
    obtain fn m1 es1 where a: "a = (fn, m1, es1)" by (cases a)
    from setsid_stage[where os = os and n = n and m = m] Inl a obtain f c where
      f: "es1 = [f]" "ev_ctx f = n" "ev_fail f = Some c" "trigger_cleared f"
         "call_justified (data m) (ev_call f)" "step_rank (ev_call f) = 1"
         "fn = call_name (ev_call f)" "errno m1 = c" "data m1 = ev_data f"
      by auto
    have res: "?res = goto_fail n (Some (call_name (ev_call f))) m1 ([] @ [] @ [f])"
      using Inl a f(1,7) by (subst exec_trampoline.simps) simp
    from failed_call_ends_pass[OF quiet_Nil[of n "data m" 0] _ _ _ f(3,8,9) res] f
    obtain calls where c: "calls \<noteq> []" "pass_calls n (data m) calls" "ev_fail (last calls) = Some c"
      "outcome_of ?res = Killed" "trace_of ?res = calls @ [failure_record (last calls) c]"
      "final_data ?res = ev_data (failure_record (last calls) c)" "\<exists>pre'. calls = [] @ pre'"
      by auto
    have "trace_of ?res = [f, failure_record f c]"
      using res goto_fail_record[OF f(3,2,8,9), of "[]"] by (simp add: trace_of_def)
    with c(5) have "calls = [f]" by simp
    then have "\<forall>e\<in>set calls. step_rank (ev_call e) \<le> 3" using f(6) by simp
    from fin[OF c(1-6) this] show ?thesis ..
  next
    case Inr1: (Inr b)
    obtain m1 es1 where b: "b = (m1, es1)" by (cases b)
    from setsid_stage[where os = os and n = n and m = m] Inr1 b have
      m1: "m1 = m\<lparr>data := (data m)\<lparr>flags := flags (data m) AND NOT (push_bit ETD_SETSID 1)\<rparr>\<rparr>"
      and q1: "quiet n (data m) 1 es1"
      by auto
    have ps1: "parent_signal (data m1) = parent_signal (data m)"
      by (simp add: m1)
    show ?thesis
    proof (cases "pdeathsig_block os n m1")
      case (Inl a)
      obtain fn m2 es2 where a: "a = (fn, m2, es2)" by (cases a)
      from pdeathsig_stage[where os = os and n = n and m = m1] Inl a obtain f c where
        f: "es2 = [f]" "ev_ctx f = n" "ev_fail f = Some c" "trigger_cleared f"
           "call_justified (data m1) (ev_call f)" "step_rank (ev_call f) = 2"
           "fn = call_name (ev_call f)" "errno m2 = c" "data m2 = ev_data f"
        by auto
      have j: "call_justified (data m) (ev_call f)"
        using f(5,6) ps1 by (cases "ev_call f") simp_all
      have res: "?res = goto_fail n (Some (call_name (ev_call f))) m2 (es1 @ [] @ [f])"
        using Inr1 b Inl a f(1,7) by (subst exec_trampoline.simps) simp
      have "ev_ctx f = n" by fact
      then have "goto_fail n (Some (call_name (ev_call f))) m2 (es1 @ [f]) =
           (Killed, m2\<lparr>data := ev_data (failure_record f c)\<rparr>, es1 @ [f, failure_record f c])"
        using f by (intro goto_fail_record) simp_all
      then have r: "outcome_of ?res = Killed"
        "trace_of ?res = (es1 @ [f]) @ [failure_record (last (es1 @ [f])) c]"
        "final_data ?res = ev_data (failure_record (last (es1 @ [f])) c)"
        using res by (simp_all add: outcome_of_def trace_of_def final_data_def)
      have pc: "pass_calls n (data m) (es1 @ [f])"
        using q1 f j by (intro pass_calls_extend[where r = 1]) simp_all
      have rk: "\<forall>e\<in>set (es1 @ [f]). step_rank (ev_call e) \<le> 3"
      proof
        fix e assume "e \<in> set (es1 @ [f])"
        then consider "e \<in> set es1" | "e = f" by auto
        then show "step_rank (ev_call e) \<le> 3"
        proof cases
          case 1
          with q1 have "step_rank (ev_call e) \<le> 1" unfolding quiet_def by blast
          then show ?thesis by simp
        next
          case 2
          then show ?thesis using f(6) by simp
        qed
      qed
      have "?P (es1 @ [f])"
        by (rule fin[OF _ pc _ r rk]) (simp_all add: f(3))
      then show ?thesis ..
    next
      case Inr2: (Inr b2)
      obtain m2 es2 where b2: "b2 = (m2, es2)" by (cases b2)
      from pdeathsig_stage[where os = os and n = n and m = m1] Inr2 b2 have
        m2: "m2 = m1\<lparr>data := (data m1)\<lparr>parent_signal :=
               (if 0 \<le> parent_signal (data m1) then 0 else parent_signal (data m1))\<rparr>\<rparr>"
        and e2: "\<forall>e\<in>set es2. ev_ctx e = n \<and> trigger_cleared e \<and>
                   call_justified (data m1) (ev_call e) \<and> step_rank (ev_call e) = 2 \<and>
                   ev_fail e = None"
        and l2: "length es2 \<le> 1"
        by auto
      have j2: "\<forall>e\<in>set es2. call_justified (data m) (ev_call e)"
      proof
        fix e assume "e \<in> set es2"
        with e2 have "call_justified (data m1) (ev_call e)" "step_rank (ev_call e) = 2" by auto
        then show "call_justified (data m) (ev_call e)"
          using ps1 by (cases "ev_call e") simp_all
      qed
      have o2: "in_order es2"
        using l2 by (cases es2) simp_all
      have q2: "quiet n (data m) 2 (es1 @ es2)"
        by (rule quiet_extend[where r = 1]) (use q1 e2 j2 o2 in auto)
      have fl2: "flags (data m2) = flags (data m) AND NOT (push_bit ETD_SETSID 1)"
        by (simp add: m2 m1)
      have df2: "flags (data m2) AND push_bit ETD_DOUBLEFORK 1 \<noteq> 0"
        unfolding fl2 using df and_not_other_bit[OF flag_bits_distinct(1), of "flags (data m)"]
        by simp
      let ?d = "(data m2)\<lparr>flags := flags (data m2) AND NOT (push_bit ETD_DOUBLEFORK 1)\<rparr>"
      let ?F = "CLONE_VFORK OR CLONE_VM"
      let ?ev = "\<lparr>ev_ctx = n, ev_call = Clone ?F,
                  ev_fail = (case clone_ret os n ?F of Inl e \<Rightarrow> Some e | Inr pid \<Rightarrow> None),
                  ev_data = ?d\<rparr>"
      have dd: "?d = (data m)\<lparr>flags := (flags (data m) AND NOT (push_bit ETD_SETSID 1))
                                 AND NOT (push_bit ETD_DOUBLEFORK 1),
                      parent_signal :=
                        (if 0 \<le> parent_signal (data m) then 0 else parent_signal (data m))\<rparr>"
        by (simp add: m2 m1)
      have mm: "m2\<lparr>data := ?d\<rparr> = m\<lparr>data := ?d\<rparr>"
        by (simp add: m2 m1)
      have evp: "ev_ctx ?ev = n" "trigger_cleared ?ev" "call_justified (data m) (ev_call ?ev)"
        "step_rank (ev_call ?ev) = 3"
        using df by (simp_all add: and_not_clears)
      have pc: "pass_calls n (data m) ((es1 @ es2) @ [?ev])"
        by (rule pass_calls_extend[OF q2]) (use evp in simp_all)
      have rk: "\<forall>e\<in>set ((es1 @ es2) @ [?ev]). step_rank (ev_call e) \<le> 3"
      proof
        fix e assume "e \<in> set ((es1 @ es2) @ [?ev])"
        then consider "e \<in> set (es1 @ es2)" | "e = ?ev" by auto
        then show "step_rank (ev_call e) \<le> 3"
        proof cases
          case 1
          with q2 have "step_rank (ev_call e) \<le> 2" unfolding quiet_def by blast
          then show ?thesis by simp
        next
          case 2
          then show ?thesis by simp
        qed
      qed
      show ?thesis
      proof (cases "clone_ret os n ?F")
        case (Inl c)
        have res: "?res = goto_fail n (Some (call_name (ev_call ?ev))) (m2\<lparr>data := ?d, errno := c\<rparr>)
                            ((es1 @ es2) @ [?ev])"
          using Inr1 b Inr2 b2 df2 Inl by (subst exec_trampoline.simps) (simp add: Let_def)
        have "goto_fail n (Some (call_name (ev_call ?ev))) (m2\<lparr>data := ?d, errno := c\<rparr>)
                ((es1 @ es2) @ [?ev]) =
              (Killed, (m2\<lparr>data := ?d, errno := c\<rparr>)\<lparr>data := ev_data (failure_record ?ev c)\<rparr>,
               (es1 @ es2) @ [?ev, failure_record ?ev c])"
          by (rule goto_fail_record) (simp_all add: Inl)
        then have r: "outcome_of ?res = Killed"
          "trace_of ?res = ((es1 @ es2) @ [?ev]) @ [failure_record (last ((es1 @ es2) @ [?ev])) c]"
          "final_data ?res = ev_data (failure_record (last ((es1 @ es2) @ [?ev])) c)"
          using res by (simp_all add: outcome_of_def trace_of_def final_data_def)
        have "?P ((es1 @ es2) @ [?ev])"
          by (rule fin[OF _ pc _ r rk]) (simp_all add: Inl)
        then show ?thesis ..
      next
        case (Inr pid)
        let ?inner = "exec_trampoline os (Suc n) (m\<lparr>data := ?d\<rparr>)"
        obtain out' m3 es3 where inner: "?inner = (out', m3, es3)"
          by (cases ?inner)
        have res: "?res = goto_fail n None m3 ((es1 @ es2) @ [?ev] @ es3)"
          using Inr1 b Inr2 b2 df2 \<open>clone_ret os n ?F = Inr pid\<close> inner mm
          by (subst exec_trampoline.simps) (simp add: Let_def)
        let ?calls = "(es1 @ es2) @ [?ev]"
        have last: "last ?calls = ?ev" by simp
        have "ev_fail (last ?calls) = None" "is_clone (ev_call (last ?calls))"
          using \<open>clone_ret os n ?F = Inr pid\<close> by (simp_all add: is_clone_def)
        moreover have "ev_data (last ?calls) =
            (data m)\<lparr>flags := (flags (data m) AND NOT (push_bit ETD_SETSID 1))
                                 AND NOT (push_bit ETD_DOUBLEFORK 1),
                      parent_signal :=
                        (if 0 \<le> parent_signal (data m) then 0 else parent_signal (data m))\<rparr>"
          using dd by simp
        moreover have in': "exec_trampoline os (Suc n) (m\<lparr>data := ev_data (last ?calls)\<rparr>) = (out', m3, es3)"
          using inner by simp
        moreover have "outcome_of ?res = Killed"
          "final_data ?res = (data m3)\<lparr>fun_name := None, error := errno m3\<rparr>"
          "trace_of ?res = ?calls @ es3 @ [\<lparr>ev_ctx = n, ev_call = Raise_SIGKILL, ev_fail = None,
              ev_data = (data m3)\<lparr>fun_name := None, error := errno m3\<rparr>\<rparr>]"
          unfolding res by (simp_all add: goto_fail_def Let_def outcome_of_def final_data_def trace_of_def)
        ultimately have "?P ?calls"
          using pc rk unfolding in' by (simp add: trace_of_def final_data_def)
        then show ?thesis ..
      qed
    qed
  qed
qed

section \<open>Reading a run off its shape\<close>

lemma failure_record_simps [simp]:
  "ev_ctx (failure_record e c) = ev_ctx e"
  "ev_call (failure_record e c) = Raise_SIGKILL"
  "ev_fail (failure_record e c) = None"
  "fun_name (ev_data (failure_record e c)) = Some (call_name (ev_call e))"
  "error (ev_data (failure_record e c)) = c"
  by (simp_all add: failure_record_def)

lemma by_ctx_append [simp]: "by_ctx c (xs @ ys) = by_ctx c xs @ by_ctx c ys"
  and by_ctx_Cons: "by_ctx c (x # xs) = (if ev_ctx x = c then x # by_ctx c xs else by_ctx c xs)"
  and by_ctx_Nil [simp]: "by_ctx c [] = []"
  by (simp_all add: by_ctx_def)

lemma by_ctx_all:
  assumes "\<forall>e\<in>set es. ev_ctx e = n"
  shows "by_ctx c es = (if c = n then es else [])"
  using assms unfolding by_ctx_def by (induction es) auto

lemma pass_calls_ctx: "pass_calls n d calls \<Longrightarrow> \<forall>e\<in>set calls. ev_ctx e = n"
  by (simp add: pass_calls_def)

text \<open>The calls of a pass followed by a \<^verbatim>\<open>raise(SIGKILL)\<close> are in step order.\<close>

lemma in_order_calls_kill:
  assumes "pass_calls n d calls" "ev_call k = Raise_SIGKILL"
  shows "in_order (calls @ [k])"
proof -
  have "\<forall>e\<in>set calls. step_rank (ev_call e) < step_rank (ev_call k)"
    using assms by (fastforce simp: pass_calls_def)
  then show ?thesis
    using assms(1) by (simp add: in_order_append pass_calls_def)
qed

text \<open>A failed last call and its record: every failure of the list is reported.\<close>

lemma failures_reported_ok:
  "\<forall>e\<in>set es. ev_fail e = None \<Longrightarrow> failures_reported (es @ rest) = failures_reported rest"
  by (induction es) simp_all

lemma failures_reported_last:
  assumes "calls \<noteq> []" "\<forall>e\<in>set (butlast calls). ev_fail e = None" "ev_fail (last calls) = Some c"
  shows "failures_reported (calls @ [failure_record (last calls) c])"
proof (cases calls rule: rev_cases)
  case Nil
  with assms(1) show ?thesis by simp
next
  case (snoc pre l)
  then show ?thesis
    using assms(2,3) by (simp add: failures_reported_ok)
qed

lemma failures_reported_index:
  assumes "failures_reported es" "i < length es" "ev_fail (es ! i) = Some c"
  shows "Suc i < length es \<and> es ! Suc i = failure_record (es ! i) c"
  using assms
proof (induction es arbitrary: i)
  case Nil
  then show ?case by simp
next
  case (Cons e es)
  show ?case
  proof (cases i)
    case 0
    with Cons.prems show ?thesis
      by (cases es) simp_all
  next
    case (Suc j)
    with Cons.prems Cons.IH[of j] show ?thesis by simp
  qed
qed

text \<open>In the calls of a pass a call of a step other than the signal step occurs once.\<close>

lemma in_order_rank_last:
  assumes "in_order calls" "e \<in> set calls" "\<forall>x\<in>set calls. step_rank (ev_call x) \<le> step_rank (ev_call e)"
    "step_rank (ev_call e) \<noteq> 4"
  shows "e = last calls"
proof -
  obtain xs ys where s: "calls = xs @ e # ys"
    using assms(2) by (auto simp: in_set_conv_decomp)
  have "ys = []"
  proof (rule ccontr)
    assume "ys \<noteq> []"
    then obtain y where y: "y \<in> set ys" by (cases ys) auto
    have "in_order (e # ys)"
      using assms(1) s by (simp add: in_order_append)
    then have "step_rank (ev_call e) < step_rank (ev_call y) \<or>
               (step_rank (ev_call e) = 4 \<and> step_rank (ev_call y) = 4)"
      using y by (auto simp: in_order_def)
    moreover have "step_rank (ev_call y) \<le> step_rank (ev_call e)"
      using assms(3) s y by simp
    ultimately show False using assms(4) by simp
  qed
  then show ?thesis using s by simp
qed

text \<open>What a pass with the double-fork flag clear does, read off its shape.\<close>

lemma single_run:
  fixes os :: os and n :: nat and m :: mem
  assumes nodf: "flags (data m) AND push_bit ETD_DOUBLEFORK 1 = 0"
  defines "r \<equiv> exec_trampoline os n m"
  shows single_run_events:
      "\<forall>e\<in>set (trace_of r). ev_ctx e = n \<and> trigger_cleared e \<and>
          (ev_call e = Raise_SIGKILL \<or>
           call_justified (data m) (ev_call e) \<and> step_rank (ev_call e) \<le> 6)"
    and single_run_order: "in_order (trace_of r)"
    and single_run_failures: "failures_reported (trace_of r)"
    and single_run_end:
      "trace_of r \<noteq> [] \<and>
       (outcome_of r = Killed \<and>
        last (trace_of r) =
          \<lparr>ev_ctx = n, ev_call = Raise_SIGKILL, ev_fail = None, ev_data = final_data r\<rparr> \<or>
        outcome_of r = ImageReplaced \<and> is_exec (ev_call (last (trace_of r))) \<and>
        ev_fail (last (trace_of r)) = None \<and> ev_ctx (last (trace_of r)) = n)"
    and single_run_signals:
      "outcome_of r = ImageReplaced \<longrightarrow>
         (\<forall>k. call_justified (data m) (Signal_ign k) \<longrightarrow>
              (\<exists>e\<in>set (trace_of r). ev_call e = Signal_ign k))"
proof -
  obtain calls where c: "calls \<noteq> []" "pass_calls n (data m) calls"
    and e: "case ev_fail (last calls) of
        Some c \<Rightarrow>
          outcome_of r = Killed \<and>
          trace_of r = calls @ [failure_record (last calls) c] \<and>
          final_data r = ev_data (failure_record (last calls) c)
      | None \<Rightarrow>
          outcome_of r = ImageReplaced \<and>
          trace_of r = calls \<and>
          is_exec (ev_call (last calls)) \<and>
          final_data r = ev_data (last calls) \<and>
          (\<forall>k. call_justified (data m) (Signal_ign k) \<longrightarrow>
               (\<exists>e\<in>set calls. ev_call e = Signal_ign k))"
    using single_pass[OF nodf, of n os] unfolding r_def by blast
  have pc: "\<forall>e\<in>set calls. ev_ctx e = n \<and> trigger_cleared e \<and>
              call_justified (data m) (ev_call e) \<and> step_rank (ev_call e) \<le> 6"
    and bl: "\<forall>e\<in>set (butlast calls). ev_fail e = None"
    and io: "in_order calls"
    using c(2) by (simp_all add: pass_calls_def)
  have ln: "ev_ctx (last calls) = n"
    using pc c(1) by simp
  show "\<forall>e\<in>set (trace_of r). ev_ctx e = n \<and> trigger_cleared e \<and>
          (ev_call e = Raise_SIGKILL \<or>
           call_justified (data m) (ev_call e) \<and> step_rank (ev_call e) \<le> 6)"
  proof (cases "ev_fail (last calls)")
    case None
    with e have "trace_of r = calls" by simp
    with pc show ?thesis by simp
  next
    case (Some code)
    with e have "trace_of r = calls @ [failure_record (last calls) code]" by simp
    with pc ln show ?thesis by simp
  qed
  show "in_order (trace_of r)"
  proof (cases "ev_fail (last calls)")
    case None
    with e io show ?thesis by simp
  next
    case (Some code)
    with e have "trace_of r = calls @ [failure_record (last calls) code]" by simp
    then show ?thesis
      using in_order_calls_kill[OF c(2), of "failure_record (last calls) code"] by simp
  qed
  show "failures_reported (trace_of r)"
  proof (cases "ev_fail (last calls)")
    case None
    have "\<forall>e\<in>set calls. ev_fail e = None"
    proof
      fix x assume "x \<in> set calls"
      then have "x \<in> set (butlast calls) \<or> x = last calls"
        using c(1) by (metis append_butlast_last_id in_set_conv_decomp rotate1.simps(2) set_ConsD set_rotate1)
      then show "ev_fail x = None" using bl None by auto
    qed
    then have "failures_reported (calls @ [])"
      by (subst failures_reported_ok) simp_all
    with e None show ?thesis by simp
  next
    case (Some code)
    with e have "trace_of r = calls @ [failure_record (last calls) code]" by simp
    then show ?thesis
      using failures_reported_last[OF c(1) bl Some] by simp
  qed
  show "trace_of r \<noteq> [] \<and>
       (outcome_of r = Killed \<and>
        last (trace_of r) =
          \<lparr>ev_ctx = n, ev_call = Raise_SIGKILL, ev_fail = None, ev_data = final_data r\<rparr> \<or>
        outcome_of r = ImageReplaced \<and> is_exec (ev_call (last (trace_of r))) \<and>
        ev_fail (last (trace_of r)) = None \<and> ev_ctx (last (trace_of r)) = n)"
  proof (cases "ev_fail (last calls)")
    case None
    with e c(1) ln show ?thesis by simp
  next
    case (Some code)
    with e have t: "trace_of r = calls @ [failure_record (last calls) code]"
      "outcome_of r = Killed" "final_data r = ev_data (failure_record (last calls) code)"
      by simp_all
    have "failure_record (last calls) code =
      \<lparr>ev_ctx = n, ev_call = Raise_SIGKILL, ev_fail = None, ev_data = final_data r\<rparr>"
      using t(3) ln by (simp add: failure_record_def)
    with t(1,2) show ?thesis by simp
  qed
  show "outcome_of r = ImageReplaced \<longrightarrow>
         (\<forall>k. call_justified (data m) (Signal_ign k) \<longrightarrow>
              (\<exists>e\<in>set (trace_of r). ev_call e = Signal_ign k))"
  proof (cases "ev_fail (last calls)")
    case None
    with e show ?thesis by simp
  next
    case (Some code)
    with e show ?thesis by simp
  qed
qed

lemma failures_reported_append:
  assumes "failures_reported xs" "xs = [] \<or> ev_fail (last xs) = None" "failures_reported ys"
  shows "failures_reported (xs @ ys)"
  using assms
proof (induction xs)
  case Nil
  then show ?case by simp
next
  case (Cons x xs)
  show ?case
  proof (cases xs)
    case Nil
    with Cons.prems show ?thesis by simp
  next
    case (Cons y zs)
    with Cons.prems Cons.IH show ?thesis by (simp split: option.splits)
  qed
qed

lemma pass_calls_all_ok:
  assumes "pass_calls n d calls" "calls \<noteq> []" "ev_fail (last calls) = None"
  shows "\<forall>e\<in>set calls. ev_fail e = None"
proof (cases calls rule: rev_cases)
  case Nil
  with assms(2) show ?thesis by simp
next
  case (snoc pre l)
  with assms show ?thesis by (simp add: pass_calls_def)
qed

text \<open>The descriptor a double fork hands to the new context.\<close>

lemma second_pass_flags:
  fixes w :: "32 word"
  shows "((w AND NOT (push_bit ETD_SETSID 1)) AND NOT (push_bit ETD_DOUBLEFORK 1))
           AND push_bit ETD_DOUBLEFORK 1 = 0"
    and "((w AND NOT (push_bit ETD_SETSID 1)) AND NOT (push_bit ETD_DOUBLEFORK 1))
           AND push_bit ETD_SETSID 1 = 0"
proof -
  show "((w AND NOT (push_bit ETD_SETSID 1)) AND NOT (push_bit ETD_DOUBLEFORK 1))
           AND push_bit ETD_DOUBLEFORK 1 = 0"
    by (rule and_not_clears)
  have "((w AND NOT (push_bit ETD_SETSID 1)) AND NOT (push_bit ETD_DOUBLEFORK 1))
           AND push_bit ETD_SETSID 1 = (w AND NOT (push_bit ETD_SETSID 1)) AND push_bit ETD_SETSID 1"
    by (rule and_not_other_bit[OF flag_bits_distinct(2)])
  then show "((w AND NOT (push_bit ETD_SETSID 1)) AND NOT (push_bit ETD_DOUBLEFORK 1))
           AND push_bit ETD_SETSID 1 = 0"
    by (simp only: and_not_clears)
qed

text \<open>
  A run with the double-fork flag set, taken apart: the calls of the middle context,
  the run of the new context (empty when the middle context failed before or at the
  \<^verbatim>\<open>clone\<close>), and the \<^verbatim>\<open>raise(SIGKILL)\<close> of the middle context.
\<close>

lemma double_run:
  fixes os :: os and n :: nat and m :: mem
  assumes df: "flags (data m) AND push_bit ETD_DOUBLEFORK 1 \<noteq> 0"
  defines "r \<equiv> exec_trampoline os n m"
  defines "d2 \<equiv> second_pass_data (data m)"
  shows "\<exists>calls inner k.
     trace_of r = calls @ inner @ [k] \<and> calls \<noteq> [] \<and> pass_calls n (data m) calls \<and>
     (\<forall>e\<in>set calls. step_rank (ev_call e) \<le> 3) \<and>
     k = \<lparr>ev_ctx = n, ev_call = Raise_SIGKILL, ev_fail = None, ev_data = final_data r\<rparr> \<and>
     outcome_of r = Killed \<and>
     (inner = [] \<and> (\<exists>c. ev_fail (last calls) = Some c \<and> k = failure_record (last calls) c) \<or>
      ev_fail (last calls) = None \<and> is_clone (ev_call (last calls)) \<and>
      ev_data (last calls) = d2 \<and>
      inner = trace_of (exec_trampoline os (Suc n) (m\<lparr>data := d2\<rparr>)) \<and>
      fun_name (final_data r) = None)"
proof -
  obtain calls where c: "calls \<noteq> []" "pass_calls n (data m) calls"
    "\<forall>e\<in>set calls. step_rank (ev_call e) \<le> 3"
    and e: "case ev_fail (last calls) of
        Some c \<Rightarrow>
          outcome_of r = Killed \<and>
          trace_of r = calls @ [failure_record (last calls) c] \<and>
          final_data r = ev_data (failure_record (last calls) c)
      | None \<Rightarrow>
          is_clone (ev_call (last calls)) \<and>
          ev_data (last calls) = d2 \<and>
          outcome_of r = Killed \<and>
          trace_of r =
            calls @ trace_of (exec_trampoline os (Suc n) (m\<lparr>data := ev_data (last calls)\<rparr>)) @
            [\<lparr>ev_ctx = n, ev_call = Raise_SIGKILL, ev_fail = None, ev_data = final_data r\<rparr>] \<and>
          final_data r =
            (final_data (exec_trampoline os (Suc n) (m\<lparr>data := ev_data (last calls)\<rparr>)))
              \<lparr>fun_name := None,
               error := errno (fst (snd (exec_trampoline os (Suc n)
                                           (m\<lparr>data := ev_data (last calls)\<rparr>))))\<rparr>"
    using double_pass[OF df, of n os] unfolding r_def d2_def second_pass_data_def by blast
  have ln: "ev_ctx (last calls) = n"
    using c(1,2) by (simp add: pass_calls_def)
  let ?k = "\<lparr>ev_ctx = n, ev_call = Raise_SIGKILL, ev_fail = None, ev_data = final_data r\<rparr>"
  show ?thesis
  proof (cases "ev_fail (last calls)")
    case (Some code)
    with e have t: "trace_of r = calls @ [failure_record (last calls) code]"
      "outcome_of r = Killed" "final_data r = ev_data (failure_record (last calls) code)"
      by simp_all
    have k: "failure_record (last calls) code = ?k"
      using t(3) ln by (simp add: failure_record_def)
    have "trace_of r = calls @ [] @ [?k]"
      using t(1) k by simp
    moreover have "\<exists>c. ev_fail (last calls) = Some c \<and> ?k = failure_record (last calls) c"
      using Some k by simp
    ultimately show ?thesis
      using c t(2) by blast
  next
    case None
    let ?inner = "trace_of (exec_trampoline os (Suc n) (m\<lparr>data := d2\<rparr>))"
    from e None have t: "is_clone (ev_call (last calls))" "ev_data (last calls) = d2"
      "outcome_of r = Killed"
      "trace_of r = calls @ ?inner @ [?k]"
      "final_data r =
            (final_data (exec_trampoline os (Suc n) (m\<lparr>data := d2\<rparr>)))
              \<lparr>fun_name := None,
               error := errno (fst (snd (exec_trampoline os (Suc n) (m\<lparr>data := d2\<rparr>))))\<rparr>"
      by simp_all
    have "fun_name (final_data r) = None"
      unfolding t(5) by simp
    with t(1-4) None c show ?thesis by blast
  qed
qed

lemma second_pass_data_flags:
  "flags (second_pass_data d) AND push_bit ETD_DOUBLEFORK 1 = 0"
  "flags (second_pass_data d) AND push_bit ETD_SETSID 1 = 0"
proof -
  have f: "flags (second_pass_data d) =
      (flags d AND NOT (push_bit ETD_SETSID 1)) AND NOT (push_bit ETD_DOUBLEFORK 1)"
    by (simp add: second_pass_data_def)
  show "flags (second_pass_data d) AND push_bit ETD_DOUBLEFORK 1 = 0"
    unfolding f by (rule second_pass_flags(1))
  show "flags (second_pass_data d) AND push_bit ETD_SETSID 1 = 0"
    unfolding f by (rule second_pass_flags(2))
qed

lemma second_pass_data_fields [simp]:
  "sigign (second_pass_data d) = sigign d"
  "parent_signal (second_pass_data d) = (if 0 \<le> parent_signal d then 0 else parent_signal d)"
  by (simp_all add: second_pass_data_def)

text \<open>The run of the context a double fork creates is a run with the flag clear.\<close>

lemma double_run_inner:
  fixes os :: os and n :: nat and m :: mem
  assumes df: "flags (data m) AND push_bit ETD_DOUBLEFORK 1 \<noteq> 0"
  defines "r \<equiv> exec_trampoline os n m"
  defines "d2 \<equiv> second_pass_data (data m)"
  obtains calls inner k where
    "trace_of r = calls @ inner @ [k]" "calls \<noteq> []" "pass_calls n (data m) calls"
    "\<forall>e\<in>set calls. step_rank (ev_call e) \<le> 3"
    "k = \<lparr>ev_ctx = n, ev_call = Raise_SIGKILL, ev_fail = None, ev_data = final_data r\<rparr>"
    "outcome_of r = Killed"
    "inner = [] \<and> (\<exists>c. ev_fail (last calls) = Some c \<and> k = failure_record (last calls) c) \<or>
      ev_fail (last calls) = None \<and> is_clone (ev_call (last calls)) \<and>
      ev_data (last calls) = d2 \<and>
      inner = trace_of (exec_trampoline os (Suc n) (m\<lparr>data := d2\<rparr>)) \<and>
      fun_name (final_data r) = None"
    "\<forall>e\<in>set inner. ev_ctx e = Suc n \<and> trigger_cleared e \<and>
          (ev_call e = Raise_SIGKILL \<or>
           call_justified d2 (ev_call e) \<and> step_rank (ev_call e) \<le> 6)"
    "in_order inner" "failures_reported inner"
    "inner = [] \<or> ev_fail (last inner) = None \<and>
       (ev_call (last inner) = Raise_SIGKILL \<or> is_exec (ev_call (last inner)))"
proof -
  obtain calls inner k where d:
    "trace_of r = calls @ inner @ [k]" "calls \<noteq> []" "pass_calls n (data m) calls"
    "\<forall>e\<in>set calls. step_rank (ev_call e) \<le> 3"
    "k = \<lparr>ev_ctx = n, ev_call = Raise_SIGKILL, ev_fail = None, ev_data = final_data r\<rparr>"
    "outcome_of r = Killed"
    and alt: "inner = [] \<and> (\<exists>c. ev_fail (last calls) = Some c \<and> k = failure_record (last calls) c) \<or>
      ev_fail (last calls) = None \<and> is_clone (ev_call (last calls)) \<and>
      ev_data (last calls) = d2 \<and>
      inner = trace_of (exec_trampoline os (Suc n) (m\<lparr>data := d2\<rparr>)) \<and>
      fun_name (final_data r) = None"
    using double_run[OF df, of os n] unfolding r_def d2_def by blast
  have inner: "(\<forall>e\<in>set inner. ev_ctx e = Suc n \<and> trigger_cleared e \<and>
          (ev_call e = Raise_SIGKILL \<or>
           call_justified d2 (ev_call e) \<and> step_rank (ev_call e) \<le> 6)) \<and>
    in_order inner \<and> failures_reported inner \<and>
    (inner = [] \<or> ev_fail (last inner) = None \<and>
       (ev_call (last inner) = Raise_SIGKILL \<or> is_exec (ev_call (last inner))))"
  proof (cases "inner = []")
    case True
    then show ?thesis by simp
  next
    case False
    with alt have i: "inner = trace_of (exec_trampoline os (Suc n) (m\<lparr>data := d2\<rparr>))"
      by blast
    let ?m = "m\<lparr>data := d2\<rparr>"
    have "data ?m = second_pass_data (data m)"
      by (simp add: d2_def)
    then have nodf: "flags (data ?m) AND push_bit ETD_DOUBLEFORK 1 = 0"
      by (simp only: second_pass_data_flags)
    note s = single_run_events[OF nodf, of os "Suc n"] single_run_order[OF nodf, of os "Suc n"]
      single_run_failures[OF nodf, of os "Suc n"] single_run_end[OF nodf, of os "Suc n"]
    have "ev_fail (last inner) = None \<and>
       (ev_call (last inner) = Raise_SIGKILL \<or> is_exec (ev_call (last inner)))"
      using s(4) unfolding i[symmetric] by auto
    moreover have "\<forall>e\<in>set inner. ev_ctx e = Suc n \<and> trigger_cleared e \<and>
          (ev_call e = Raise_SIGKILL \<or>
           call_justified d2 (ev_call e) \<and> step_rank (ev_call e) \<le> 6)"
      using s(1) unfolding i[symmetric] by simp
    ultimately show ?thesis
      using s(2,3) unfolding i[symmetric] by blast
  qed
  show thesis
    using that[OF d alt] inner by blast
qed

text \<open>
  Every event of a run: made with its trigger cleared, and either a \<^verbatim>\<open>raise(SIGKILL)\<close>,
  or a call of the first context that the descriptor asks for, or a call of the context
  created by a double fork that the descriptor handed to it asks for.
\<close>

lemma run_events:
  fixes os :: os and n :: nat and m :: mem
  defines "es \<equiv> trace_of (exec_trampoline os n m)"
  shows "\<forall>e\<in>set es. trigger_cleared e \<and>
     (ev_call e = Raise_SIGKILL \<and> (ev_ctx e = n \<or> ev_ctx e = Suc n) \<or>
      ev_ctx e = n \<and> call_justified (data m) (ev_call e) \<or>
      ev_ctx e = Suc n \<and> flags (data m) AND push_bit ETD_DOUBLEFORK 1 \<noteq> 0 \<and>
        step_rank (ev_call e) \<noteq> 3 \<and>
        call_justified (second_pass_data (data m)) (ev_call e))"
proof (cases "flags (data m) AND push_bit ETD_DOUBLEFORK 1 = 0")
  case True
  show ?thesis
    using single_run_events[OF True, of os n] unfolding es_def by blast
next
  case False
  show ?thesis
  proof (rule double_run_inner[OF False, where os = os and n = n], goal_cases)
    case d: (1 calls inner k)
    show ?case
      unfolding es_def
    proof
      fix e assume "e \<in> set (trace_of (exec_trampoline os n m))"
      then consider "e \<in> set calls" | "e \<in> set inner" | "e = k"
        using d(1) by auto
      then show "trigger_cleared e \<and>
     (ev_call e = Raise_SIGKILL \<and> (ev_ctx e = n \<or> ev_ctx e = Suc n) \<or>
      ev_ctx e = n \<and> call_justified (data m) (ev_call e) \<or>
      ev_ctx e = Suc n \<and> flags (data m) AND push_bit ETD_DOUBLEFORK 1 \<noteq> 0 \<and>
        step_rank (ev_call e) \<noteq> 3 \<and>
        call_justified (second_pass_data (data m)) (ev_call e))"
      proof cases
        case 1
        with d(3) show ?thesis by (simp add: pass_calls_def)
      next
        case 2
        with d(8) have i: "ev_ctx e = Suc n" "trigger_cleared e"
          "ev_call e = Raise_SIGKILL \<or>
             call_justified (second_pass_data (data m)) (ev_call e)"
          by blast+
        have "step_rank (ev_call e) \<noteq> 3" if "call_justified (second_pass_data (data m)) (ev_call e)"
          using that second_pass_data_flags(1)[of "data m"] by (cases "ev_call e") simp_all
        with i False show ?thesis by blast
      next
        case 3
        with d(5) show ?thesis by simp
      qed
    qed
  qed
qed

text \<open>The calls of each context are in step order.\<close>

lemma run_order:
  "in_order (by_ctx c (trace_of (exec_trampoline os n m)))"
proof (cases "flags (data m) AND push_bit ETD_DOUBLEFORK 1 = 0")
  case True
  have "\<forall>e\<in>set (trace_of (exec_trampoline os n m)). ev_ctx e = n"
    using single_run_events[OF True, of os n] by blast
  then have "by_ctx c (trace_of (exec_trampoline os n m)) =
      (if c = n then trace_of (exec_trampoline os n m) else [])"
    by (rule by_ctx_all)
  then show ?thesis
    using single_run_order[OF True, of os n] by simp
next
  case False
  show ?thesis
  proof (rule double_run_inner[OF False, where os = os and n = n], goal_cases)
    case d: (1 calls inner k)
    have bc: "by_ctx c calls = (if c = n then calls else [])"
      by (rule by_ctx_all) (use d(3) in \<open>simp add: pass_calls_def\<close>)
    have bi: "by_ctx c inner = (if c = Suc n then inner else [])"
      by (rule by_ctx_all) (use d(8) in blast)
    have bk: "by_ctx c [k] = (if c = n then [k] else [])"
      using d(5) by (simp add: by_ctx_def)
    have ck: "in_order (calls @ [k])"
      by (rule in_order_calls_kill[OF d(3)]) (simp add: d(5))
    show ?case
      unfolding d(1) by_ctx_append bc bi bk using ck d(9) by simp
  qed
qed

text \<open>Every failed call is directly followed by its failure record.\<close>

lemma run_failures:
  "failures_reported (trace_of (exec_trampoline os n m))"
proof (cases "flags (data m) AND push_bit ETD_DOUBLEFORK 1 = 0")
  case True
  then show ?thesis by (rule single_run_failures)
next
  case False
  show ?thesis
  proof (rule double_run_inner[OF False, where os = os and n = n], goal_cases)
    case d: (1 calls inner k)
    show ?case
    proof (cases "ev_fail (last calls)")
      case (Some c)
      with d(7) have i: "inner = []" "k = failure_record (last calls) c" by auto
      have "\<forall>e\<in>set (butlast calls). ev_fail e = None"
        using d(3) by (simp add: pass_calls_def)
      from failures_reported_last[OF d(2) this Some] show ?thesis
        unfolding d(1) i by simp
    next
      case None
      have ok: "\<forall>e\<in>set calls. ev_fail e = None"
        by (rule pass_calls_all_ok[OF d(3,2) None])
      have "failures_reported [k]"
        using d(5) by simp
      with d(10,11) have "failures_reported (inner @ [k])"
        by (intro failures_reported_append) auto
      then show ?thesis
        unfolding d(1) using ok by (simp add: failures_reported_ok)
    qed
  qed
qed

text \<open>How the context that entered the trampoline ends.\<close>

lemma run_end:
  fixes os :: os and n :: nat and m :: mem
  defines "r \<equiv> exec_trampoline os n m"
  shows "trace_of r \<noteq> [] \<and>
       (outcome_of r = Killed \<and>
        last (trace_of r) =
          \<lparr>ev_ctx = n, ev_call = Raise_SIGKILL, ev_fail = None, ev_data = final_data r\<rparr> \<or>
        outcome_of r = ImageReplaced \<and> is_exec (ev_call (last (trace_of r))) \<and>
        ev_fail (last (trace_of r)) = None \<and> ev_ctx (last (trace_of r)) = n)"
proof (cases "flags (data m) AND push_bit ETD_DOUBLEFORK 1 = 0")
  case True
  then show ?thesis unfolding r_def by (rule single_run_end)
next
  case False
  show ?thesis
    unfolding r_def
  proof (rule double_run_inner[OF False, where os = os and n = n], goal_cases)
    case d: (1 calls inner k)
    show ?case
      unfolding d(1) using d(5,6) by simp
  qed
qed

section \<open>Failure paths\<close>

text \<open>
  Claim C2: every call that fails, in whichever context, is directly followed by the
  \<^verbatim>\<open>raise(SIGKILL)\<close> of that context, made on the descriptor in which \<^verbatim>\<open>fun\<close> holds the name
  of the failed call and \<^verbatim>\<open>error\<close> its \<^verbatim>\<open>errno\<close>; and the context that entered the
  trampoline ends killed by its own \<^verbatim>\<open>raise(SIGKILL)\<close> or with its image replaced by a
  successful \<^verbatim>\<open>exec\<close>: it never returns.
\<close>

theorem failure_recorded_then_killed:
  "(\<forall>i code.
      i < length (trace_of (exec_trampoline os n m)) \<and>
      ev_fail (trace_of (exec_trampoline os n m) ! i) = Some code \<longrightarrow>
        Suc i < length (trace_of (exec_trampoline os n m)) \<and>
        trace_of (exec_trampoline os n m) ! Suc i =
          failure_record (trace_of (exec_trampoline os n m) ! i) code) \<and>
   trace_of (exec_trampoline os n m) \<noteq> [] \<and>
   (outcome_of (exec_trampoline os n m) = Killed \<and>
    last (trace_of (exec_trampoline os n m)) =
      \<lparr>ev_ctx = n, ev_call = Raise_SIGKILL, ev_fail = None,
        ev_data = final_data (exec_trampoline os n m)\<rparr> \<or>
    outcome_of (exec_trampoline os n m) = ImageReplaced \<and>
    is_exec (ev_call (last (trace_of (exec_trampoline os n m)))) \<and>
    ev_fail (last (trace_of (exec_trampoline os n m))) = None \<and>
    ev_ctx (last (trace_of (exec_trampoline os n m))) = n) \<and>
   (\<forall>v. outcome_of (exec_trampoline os n m) \<noteq> Returned v)"
proof -
  have idx: "Suc i < length (trace_of (exec_trampoline os n m)) \<and>
        trace_of (exec_trampoline os n m) ! Suc i =
          failure_record (trace_of (exec_trampoline os n m) ! i) code"
    if "i < length (trace_of (exec_trampoline os n m))"
      "ev_fail (trace_of (exec_trampoline os n m) ! i) = Some code" for i code
    using failures_reported_index[OF run_failures[of os n m] that] .
  have fin: "trace_of (exec_trampoline os n m) \<noteq> [] \<and>
   (outcome_of (exec_trampoline os n m) = Killed \<and>
    last (trace_of (exec_trampoline os n m)) =
      \<lparr>ev_ctx = n, ev_call = Raise_SIGKILL, ev_fail = None,
        ev_data = final_data (exec_trampoline os n m)\<rparr> \<or>
    outcome_of (exec_trampoline os n m) = ImageReplaced \<and>
    is_exec (ev_call (last (trace_of (exec_trampoline os n m)))) \<and>
    ev_fail (last (trace_of (exec_trampoline os n m))) = None \<and>
    ev_ctx (last (trace_of (exec_trampoline os n m))) = n)"
    by (rule run_end)
  then have "\<forall>v. outcome_of (exec_trampoline os n m) \<noteq> Returned v"
    by auto
  with idx fin show ?thesis by blast
qed

text \<open>A program that does not exist: \<^verbatim>\<open>execv\<close> fails with \<^verbatim>\<open>ENOENT\<close>.\<close>

theorem failure_recorded_then_killed_witness:
  "map (\<lambda>e. (ev_ctx e, ev_call e, ev_fail e, fun_name (ev_data e), error (ev_data e)))
     (trace_of (exec_trampoline os_enoent 1 \<lparr>data = plain_data, errno = 0\<rparr>)) =
   [(1, Getpid, None, None, - 1), (1, Exec Execv, Some 2, None, - 1),
    (1, Raise_SIGKILL, None, Some ''execv'', 2)] \<and>
   trace_of (exec_trampoline os_enoent 1 \<lparr>data = plain_data, errno = 0\<rparr>) ! Suc 1 =
     failure_record (trace_of (exec_trampoline os_enoent 1 \<lparr>data = plain_data, errno = 0\<rparr>) ! 1) 2 \<and>
   outcome_of (exec_trampoline os_enoent 1 \<lparr>data = plain_data, errno = 0\<rparr>) = Killed"
proof -
  let ?r = "exec_trampoline os_enoent 1 \<lparr>data = plain_data, errno = 0\<rparr>"
  have t: "map (\<lambda>e. (ev_ctx e, ev_call e, ev_fail e, fun_name (ev_data e), error (ev_data e)))
     (trace_of ?r) =
   [(1, Getpid, None, None, - 1), (1, Exec Execv, Some 2, None, - 1),
    (1, Raise_SIGKILL, None, Some ''execv'', 2)]"
    by code_simp
  have l: "1 < length (trace_of ?r)" and f: "ev_fail (trace_of ?r ! 1) = Some 2"
    and o: "outcome_of ?r = Killed"
    by code_simp+
  from failure_recorded_then_killed[of os_enoent 1 "\<lparr>data = plain_data, errno = 0\<rparr>"] l f
  have "trace_of ?r ! Suc 1 = failure_record (trace_of ?r ! 1) 2"
    by blast
  with t o show ?thesis by blast
qed

section \<open>The double fork\<close>

text \<open>In a run with the double-fork flag set the only \<^verbatim>\<open>clone\<close> is the last call of the middle context.\<close>

lemma double_run_clone:
  fixes os :: os and n :: nat and m :: mem
  assumes df: "flags (data m) AND push_bit ETD_DOUBLEFORK 1 \<noteq> 0"
    and tr: "trace_of (exec_trampoline os n m) = calls @ inner @ [k]"
    and calls: "calls \<noteq> []" "pass_calls n (data m) calls"
      "\<forall>e\<in>set calls. step_rank (ev_call e) \<le> 3"
    and k: "ev_call k = Raise_SIGKILL"
    and inner: "\<forall>e\<in>set inner. ev_ctx e = Suc n \<and> trigger_cleared e \<and>
          (ev_call e = Raise_SIGKILL \<or>
           call_justified (second_pass_data (data m)) (ev_call e) \<and> step_rank (ev_call e) \<le> 6)"
    and e: "e \<in> set (trace_of (exec_trampoline os n m))" "is_clone (ev_call e)"
  shows "e = last calls"
proof -
  obtain f where f: "ev_call e = Clone f"
    using e(2) by (cases "ev_call e") (simp_all add: is_clone_def)
  have "e \<notin> set inner"
  proof
    assume "e \<in> set inner"
    with inner f have "call_justified (second_pass_data (data m)) (Clone f)" by auto
    then show False
      using second_pass_data_flags(1)[of "data m"] by simp
  qed
  moreover have "e \<noteq> k" using k f by auto
  ultimately have in_calls: "e \<in> set calls"
    using e(1) tr by auto
  have "in_order calls" using calls(2) by (simp add: pass_calls_def)
  then show ?thesis
    using in_calls calls(3) f by (intro in_order_rank_last) simp_all
qed

text \<open>
  Claim C4: with the double-fork flag set, the middle context is always killed by its own
  \<^verbatim>\<open>raise(SIGKILL)\<close>, its last call, and never reaches the signal, process-id or \<^verbatim>\<open>exec\<close>
  steps. Its \<^verbatim>\<open>clone\<close> is made with the double-fork flag cleared. If the \<^verbatim>\<open>clone\<close> fails,
  \<^verbatim>\<open>fun\<close> ends as \<^verbatim>\<open>clone(doublefork)\<close> with the \<^verbatim>\<open>errno\<close> of the \<^verbatim>\<open>clone\<close> and no second
  context runs. If it succeeds, the second context runs the same trampoline on the
  descriptor as it stood at the \<^verbatim>\<open>clone\<close>, with both the session and the double-fork flag
  cleared, and \<^verbatim>\<open>fun\<close> ends as \<^verbatim>\<open>NULL\<close> whatever the second context did. Unless the session
  or parent-death step failed before, the \<^verbatim>\<open>clone\<close> is made.
\<close>

theorem double_fork_middle:
  fixes os :: os and n :: nat and m :: mem
  assumes df: "flags (data m) AND push_bit ETD_DOUBLEFORK 1 \<noteq> 0"
  shows
   "outcome_of (exec_trampoline os n m) = Killed \<and>
    last (trace_of (exec_trampoline os n m)) =
      \<lparr>ev_ctx = n, ev_call = Raise_SIGKILL, ev_fail = None,
        ev_data = final_data (exec_trampoline os n m)\<rparr> \<and>
    (\<forall>e\<in>set (trace_of (exec_trampoline os n m)).
       ev_ctx e = n \<longrightarrow> step_rank (ev_call e) \<le> 3 \<or> ev_call e = Raise_SIGKILL) \<and>
    (\<forall>e\<in>set (trace_of (exec_trampoline os n m)).
       is_clone (ev_call e) \<longrightarrow>
         ev_ctx e = n \<and> flags (ev_data e) AND push_bit ETD_DOUBLEFORK 1 = 0 \<and>
         (case ev_fail e of
            Some c \<Rightarrow>
              fun_name (final_data (exec_trampoline os n m)) = Some ''clone(doublefork)'' \<and>
              error (final_data (exec_trampoline os n m)) = c \<and>
              by_ctx (Suc n) (trace_of (exec_trampoline os n m)) = []
          | None \<Rightarrow>
              ev_data e = second_pass_data (data m) \<and>
              flags (ev_data e) AND push_bit ETD_SETSID 1 = 0 \<and>
              fun_name (final_data (exec_trampoline os n m)) = None \<and>
              by_ctx (Suc n) (trace_of (exec_trampoline os n m)) =
                trace_of (exec_trampoline os (Suc n) (m\<lparr>data := ev_data e\<rparr>)))) \<and>
    ((\<exists>e\<in>set (trace_of (exec_trampoline os n m)). is_clone (ev_call e)) \<or>
     (\<exists>e\<in>set (trace_of (exec_trampoline os n m)).
        ev_ctx e = n \<and> step_rank (ev_call e) \<le> 2 \<and> ev_fail e \<noteq> None))"
proof (rule double_run_inner[OF df, where os = os and n = n], goal_cases)
  case d: (1 calls inner k)
  let ?r = "exec_trampoline os n m"
  have kc: "ev_call k = Raise_SIGKILL" "ev_ctx k = n" "ev_data k = final_data ?r"
    using d(5) by simp_all
  have cn: "\<forall>e\<in>set calls. ev_ctx e = n"
    using d(3) by (simp add: pass_calls_def)
  have lc: "last calls \<in> set calls"
    using d(2) by simp
  have bc: "by_ctx (Suc n) calls = []"
    using by_ctx_all[OF cn, of "Suc n"] by simp
  have bi: "by_ctx (Suc n) inner = inner"
    using by_ctx_all[of inner "Suc n" "Suc n"] d(8) by simp
  have bk: "by_ctx (Suc n) [k] = []"
    using kc(2) by (simp add: by_ctx_def)
  have by2: "by_ctx (Suc n) (trace_of ?r) = inner"
    unfolding d(1) by_ctx_append bc bi bk by simp
  have p1: "last (trace_of ?r) =
      \<lparr>ev_ctx = n, ev_call = Raise_SIGKILL, ev_fail = None, ev_data = final_data ?r\<rparr>"
    unfolding d(1) using d(5) by simp
  have p2: "\<forall>e\<in>set (trace_of ?r).
       ev_ctx e = n \<longrightarrow> step_rank (ev_call e) \<le> 3 \<or> ev_call e = Raise_SIGKILL"
  proof (intro ballI impI)
    fix e assume e: "e \<in> set (trace_of ?r)" "ev_ctx e = n"
    then consider "e \<in> set calls" | "e \<in> set inner" | "e = k"
      using d(1) by auto
    then show "step_rank (ev_call e) \<le> 3 \<or> ev_call e = Raise_SIGKILL"
    proof cases
      case 1
      with d(4) show ?thesis by blast
    next
      case 2
      with d(8) e(2) show ?thesis by auto
    next
      case 3
      with kc show ?thesis by simp
    qed
  qed
  have p3: "ev_ctx e = n \<and> flags (ev_data e) AND push_bit ETD_DOUBLEFORK 1 = 0 \<and>
         (case ev_fail e of
            Some c \<Rightarrow>
              fun_name (final_data ?r) = Some ''clone(doublefork)'' \<and>
              error (final_data ?r) = c \<and>
              by_ctx (Suc n) (trace_of ?r) = []
          | None \<Rightarrow>
              ev_data e = second_pass_data (data m) \<and>
              flags (ev_data e) AND push_bit ETD_SETSID 1 = 0 \<and>
              fun_name (final_data ?r) = None \<and>
              by_ctx (Suc n) (trace_of ?r) =
                trace_of (exec_trampoline os (Suc n) (m\<lparr>data := ev_data e\<rparr>)))"
    if e: "e \<in> set (trace_of ?r)" "is_clone (ev_call e)" for e
  proof -
    have el: "e = last calls"
      by (rule double_run_clone[OF df d(1) d(2) d(3) d(4) kc(1) d(8) e])
    obtain f where f: "ev_call e = Clone f"
      using e(2) by (cases "ev_call e") (simp_all add: is_clone_def)
    have "trigger_cleared e" "ev_ctx e = n"
      using d(3) lc el by (simp_all add: pass_calls_def)
    then have b: "ev_ctx e = n \<and> flags (ev_data e) AND push_bit ETD_DOUBLEFORK 1 = 0"
      using f by simp
    show ?thesis
    proof (cases "ev_fail e")
      case (Some c)
      with d(7) el have i: "inner = []" "k = failure_record e c"
        by auto
      have "final_data ?r = ev_data (failure_record e c)"
        using kc(3) i(2) by simp
      then have "fun_name (final_data ?r) = Some ''clone(doublefork)'' \<and> error (final_data ?r) = c"
        using f by simp
      with b Some by2 i(1) show ?thesis by simp
    next
      case None
      with d(7) el have i: "ev_data e = second_pass_data (data m)"
        "inner = trace_of (exec_trampoline os (Suc n) (m\<lparr>data := second_pass_data (data m)\<rparr>))"
        "fun_name (final_data ?r) = None"
        by auto
      have "flags (ev_data e) AND push_bit ETD_SETSID 1 = 0"
        unfolding i(1) by (rule second_pass_data_flags(2))
      with b None by2 i show ?thesis by simp
    qed
  qed
  have p4: "(\<exists>e\<in>set (trace_of ?r). is_clone (ev_call e)) \<or>
     (\<exists>e\<in>set (trace_of ?r).
        ev_ctx e = n \<and> step_rank (ev_call e) \<le> 2 \<and> ev_fail e \<noteq> None)"
  proof -
    have lt: "last calls \<in> set (trace_of ?r)"
      unfolding d(1) using lc by simp
    show ?thesis
    proof (cases "is_clone (ev_call (last calls))")
      case True
      with lt show ?thesis by blast
    next
      case False
      with d(7) obtain c where c: "ev_fail (last calls) = Some c" by blast
      have "step_rank (ev_call (last calls)) \<le> 3"
        using d(4) lc by blast
      moreover have "step_rank (ev_call (last calls)) \<noteq> 3"
        using False by (cases "ev_call (last calls)") (simp_all add: is_clone_def)
      ultimately have "step_rank (ev_call (last calls)) \<le> 2" by simp
      moreover have "ev_ctx (last calls) = n" using cn lc by blast
      ultimately show ?thesis
        using lt c by (intro disjI2 bexI[of _ "last calls"]) simp_all
    qed
  qed
  show ?case
    using d(6) p1 p2 p3 p4 by blast
qed

text \<open>
  A double fork whose second context fails at \<^verbatim>\<open>execv\<close>: the second context records
  \<^verbatim>\<open>execv\<close>, the middle context then resets \<^verbatim>\<open>fun\<close> to \<^verbatim>\<open>NULL\<close>.
\<close>

theorem double_fork_middle_witness:
  "flags (data \<lparr>data = full_data, errno = 0\<rparr>) AND push_bit ETD_DOUBLEFORK 1 \<noteq> 0 \<and>
   map (\<lambda>e. (ev_ctx e, ev_call e, ev_fail e, fun_name (ev_data e)))
     (trace_of (exec_trampoline os_enoent 1 \<lparr>data = full_data, errno = 0\<rparr>)) =
   [(1, Setsid, None, None), (1, Prctl_set_pdeathsig 15, None, None),
    (1, Clone (CLONE_VFORK OR CLONE_VM), None, None), (2, Prctl_set_pdeathsig 0, None, None),
    (2, Signal_ign 2, None, None), (2, Getpid, None, None), (2, Exec Execv, Some 2, None),
    (2, Raise_SIGKILL, None, Some ''execv''), (1, Raise_SIGKILL, None, None)] \<and>
   outcome_of (exec_trampoline os_enoent 1 \<lparr>data = full_data, errno = 0\<rparr>) = Killed \<and>
   fun_name (final_data (exec_trampoline os_enoent 1 \<lparr>data = full_data, errno = 0\<rparr>)) = None"
proof -
  let ?m = "\<lparr>data = full_data, errno = 0\<rparr>"
  let ?r = "exec_trampoline os_enoent 1 ?m"
  have df: "flags (data ?m) AND push_bit ETD_DOUBLEFORK 1 \<noteq> 0"
    by code_simp
  have t: "map (\<lambda>e. (ev_ctx e, ev_call e, ev_fail e, fun_name (ev_data e))) (trace_of ?r) =
   [(1, Setsid, None, None), (1, Prctl_set_pdeathsig 15, None, None),
    (1, Clone (CLONE_VFORK OR CLONE_VM), None, None), (2, Prctl_set_pdeathsig 0, None, None),
    (2, Signal_ign 2, None, None), (2, Getpid, None, None), (2, Exec Execv, Some 2, None),
    (2, Raise_SIGKILL, None, Some ''execv''), (1, Raise_SIGKILL, None, None)]"
    by code_simp
  have e: "trace_of ?r ! 2 \<in> set (trace_of ?r)" "is_clone (ev_call (trace_of ?r ! 2))"
    "ev_fail (trace_of ?r ! 2) = None"
    by code_simp+
  from double_fork_middle[OF df, of os_enoent 1] e
  have "outcome_of ?r = Killed" "fun_name (final_data ?r) = None"
    by (auto split: option.splits)
  with df t show ?thesis by blast
qed

section \<open>The parent-death signal\<close>

text \<open>
  A pass that finds the session flag clear and a parent-death signal that is not negative
  starts with the \<^verbatim>\<open>prctl\<close> call, made on the descriptor with the field set to 0.
\<close>

lemma pdeathsig_step_taken:
  assumes s: "flags (data m) AND push_bit ETD_SETSID 1 = 0"
    and p: "0 \<le> parent_signal (data m)"
  shows "\<exists>rest. trace_of (exec_trampoline os n m) =
           \<lparr>ev_ctx = n, ev_call = Prctl_set_pdeathsig (parent_signal (data m)),
             ev_fail = prctl_err os n (parent_signal (data m)),
             ev_data = (data m)\<lparr>parent_signal := 0\<rparr>\<rparr> # rest"
proof -
  let ?ev = "\<lparr>ev_ctx = n, ev_call = Prctl_set_pdeathsig (parent_signal (data m)),
             ev_fail = prctl_err os n (parent_signal (data m)),
             ev_data = (data m)\<lparr>parent_signal := 0\<rparr>\<rparr>"
  have b1: "setsid_block os n m = Inr (m, [])"
    using s by (simp add: setsid_block_def)
  show ?thesis
  proof (cases "prctl_err os n (parent_signal (data m))")
    case (Some c)
    have b2: "pdeathsig_block os n m =
        Inl (''PR_SET_PDEATHSIG'', m\<lparr>data := (data m)\<lparr>parent_signal := 0\<rparr>, errno := c\<rparr>, [?ev])"
      using p Some by (simp add: pdeathsig_block_def Let_def)
    have "exec_trampoline os n m =
        goto_fail n (Some ''PR_SET_PDEATHSIG'')
          (m\<lparr>data := (data m)\<lparr>parent_signal := 0\<rparr>, errno := c\<rparr>) ([] @ [?ev])"
      by (subst exec_trampoline.simps) (simp add: b1 b2)
    then show ?thesis
      by (simp add: goto_fail_def Let_def trace_of_def)
  next
    case None
    let ?m2 = "m\<lparr>data := (data m)\<lparr>parent_signal := 0\<rparr>\<rparr>"
    have b2: "pdeathsig_block os n m = Inr (?m2, [?ev])"
      using p None by (simp add: pdeathsig_block_def Let_def)
    have unf: "exec_trampoline os n m =
        (if flags (data ?m2) AND push_bit ETD_DOUBLEFORK 1 \<noteq> 0 then
            (let d = (data ?m2)\<lparr>flags := flags (data ?m2) AND NOT (push_bit ETD_DOUBLEFORK 1)\<rparr>;
                 childprocess = clone_ret os n (CLONE_VFORK OR CLONE_VM);
                 ev = \<lparr>ev_ctx = n, ev_call = Clone (CLONE_VFORK OR CLONE_VM),
                       ev_fail = (case childprocess of Inl e \<Rightarrow> Some e | Inr pid \<Rightarrow> None),
                       ev_data = d\<rparr>
             in case childprocess of
                  Inl e \<Rightarrow>
                    goto_fail n (Some ''clone(doublefork)'') (?m2\<lparr>data := d, errno := e\<rparr>)
                      ([] @ [?ev] @ [ev])
                | Inr pid \<Rightarrow>
                    (case exec_trampoline os (Suc n) (?m2\<lparr>data := d\<rparr>) of
                       (out', m3, es3) \<Rightarrow> goto_fail n None m3 ([] @ [?ev] @ [ev] @ es3)))
          else
            (case sigign_block os n ?m2 of
               Inl (fn, m4, es4) \<Rightarrow> goto_fail n (Some fn) m4 ([] @ [?ev] @ es4)
             | Inr (m4, es4) \<Rightarrow> exec_block os n m4 ([] @ [?ev] @ es4)))"
      by (subst exec_trampoline.simps) (simp only: b1 b2 sum.case prod.case)
    have g: "\<exists>rest. trace_of (goto_fail n fn mm (?ev # es)) = ?ev # rest" for fn mm es
      by (simp add: goto_fail_def Let_def trace_of_def)
    have x: "\<exists>rest. trace_of (exec_block os n mm (?ev # es)) = ?ev # rest" for mm es
      by (cases "exec_err os n")
         (simp_all add: exec_block_def goto_fail_def Let_def trace_of_def split: prod.splits)
    show ?thesis
      unfolding unf using g x
      by (simp add: Let_def split: sum.splits prod.splits)
  qed
qed




section \<open>The steps that a run takes\<close>

text \<open>The paths through \<^verbatim>\<open>exec_trampoline\<close>, by the block at which the pass ends.\<close>

lemma trampoline_cases [case_names setsid_fail pdeathsig_fail clone_fail clone_ok sigign_fail exec]:
  fixes os :: os and n :: nat and m :: mem
  obtains
    (setsid_fail) fn m1 es1 where
      "setsid_block os n m = Inl (fn, m1, es1)"
      "exec_trampoline os n m = goto_fail n (Some fn) m1 es1"
  | (pdeathsig_fail) m1 es1 fn m2 es2 where
      "setsid_block os n m = Inr (m1, es1)"
      "pdeathsig_block os n m1 = Inl (fn, m2, es2)"
      "exec_trampoline os n m = goto_fail n (Some fn) m2 (es1 @ es2)"
  | (clone_fail) m1 es1 m2 es2 c where
      "setsid_block os n m = Inr (m1, es1)"
      "pdeathsig_block os n m1 = Inr (m2, es2)"
      "flags (data m2) AND push_bit ETD_DOUBLEFORK 1 \<noteq> 0"
      "clone_ret os n (CLONE_VFORK OR CLONE_VM) = Inl c"
      "exec_trampoline os n m =
         goto_fail n (Some ''clone(doublefork)'')
           (m2\<lparr>data := (data m2)\<lparr>flags := flags (data m2) AND NOT (push_bit ETD_DOUBLEFORK 1)\<rparr>,
               errno := c\<rparr>)
           (es1 @ es2 @
            [\<lparr>ev_ctx = n, ev_call = Clone (CLONE_VFORK OR CLONE_VM), ev_fail = Some c,
              ev_data = (data m2)\<lparr>flags := flags (data m2) AND NOT (push_bit ETD_DOUBLEFORK 1)\<rparr>\<rparr>])"
  | (clone_ok) m1 es1 m2 es2 pid out' m3 es3 where
      "setsid_block os n m = Inr (m1, es1)"
      "pdeathsig_block os n m1 = Inr (m2, es2)"
      "flags (data m2) AND push_bit ETD_DOUBLEFORK 1 \<noteq> 0"
      "clone_ret os n (CLONE_VFORK OR CLONE_VM) = Inr pid"
      "exec_trampoline os (Suc n)
         (m2\<lparr>data := (data m2)\<lparr>flags := flags (data m2) AND NOT (push_bit ETD_DOUBLEFORK 1)\<rparr>\<rparr>) =
       (out', m3, es3)"
      "exec_trampoline os n m =
         goto_fail n None m3
           (es1 @ es2 @
            [\<lparr>ev_ctx = n, ev_call = Clone (CLONE_VFORK OR CLONE_VM), ev_fail = None,
              ev_data = (data m2)\<lparr>flags := flags (data m2) AND NOT (push_bit ETD_DOUBLEFORK 1)\<rparr>\<rparr>] @
            es3)"
  | (sigign_fail) m1 es1 m2 es2 fn m4 es4 where
      "setsid_block os n m = Inr (m1, es1)"
      "pdeathsig_block os n m1 = Inr (m2, es2)"
      "flags (data m2) AND push_bit ETD_DOUBLEFORK 1 = 0"
      "sigign_block os n m2 = Inl (fn, m4, es4)"
      "exec_trampoline os n m = goto_fail n (Some fn) m4 (es1 @ es2 @ es4)"
  | (exec) m1 es1 m2 es2 m4 es4 where
      "setsid_block os n m = Inr (m1, es1)"
      "pdeathsig_block os n m1 = Inr (m2, es2)"
      "flags (data m2) AND push_bit ETD_DOUBLEFORK 1 = 0"
      "sigign_block os n m2 = Inr (m4, es4)"
      "exec_trampoline os n m = exec_block os n m4 (es1 @ es2 @ es4)"
proof (cases "setsid_block os n m")
  case (Inl a)
  then obtain fn m1 es1 where b1: "setsid_block os n m = Inl (fn, m1, es1)"
    by (cases a) auto
  have "exec_trampoline os n m = goto_fail n (Some fn) m1 es1"
    by (subst exec_trampoline.simps) (simp add: b1)
  with b1 show ?thesis by (rule setsid_fail)
next
  case (Inr a)
  then obtain m1 es1 where b1: "setsid_block os n m = Inr (m1, es1)"
    by (cases a) auto
  show ?thesis
  proof (cases "pdeathsig_block os n m1")
    case (Inl b)
    then obtain fn m2 es2 where b2: "pdeathsig_block os n m1 = Inl (fn, m2, es2)"
      by (cases b) auto
    have "exec_trampoline os n m = goto_fail n (Some fn) m2 (es1 @ es2)"
      by (subst exec_trampoline.simps) (simp add: b1 b2)
    with b1 b2 show ?thesis by (rule pdeathsig_fail)
  next
    case (Inr b)
    then obtain m2 es2 where b2: "pdeathsig_block os n m1 = Inr (m2, es2)"
      by (cases b) auto
    show ?thesis
    proof (cases "flags (data m2) AND push_bit ETD_DOUBLEFORK 1 = 0")
      case nodf: True
      show ?thesis
      proof (cases "sigign_block os n m2")
        case (Inl c)
        then obtain fn m4 es4 where b4: "sigign_block os n m2 = Inl (fn, m4, es4)"
          by (cases c) auto
        have "exec_trampoline os n m = goto_fail n (Some fn) m4 (es1 @ es2 @ es4)"
          using nodf by (subst exec_trampoline.simps) (simp add: b1 b2 b4)
        with b1 b2 nodf b4 show ?thesis by (rule sigign_fail)
      next
        case (Inr c)
        then obtain m4 es4 where b4: "sigign_block os n m2 = Inr (m4, es4)"
          by (cases c) auto
        have "exec_trampoline os n m = exec_block os n m4 (es1 @ es2 @ es4)"
          using nodf by (subst exec_trampoline.simps) (simp add: b1 b2 b4)
        with b1 b2 nodf b4 show ?thesis by (rule exec)
      qed
    next
      case df: False
      let ?d = "(data m2)\<lparr>flags := flags (data m2) AND NOT (push_bit ETD_DOUBLEFORK 1)\<rparr>"
      show ?thesis
      proof (cases "clone_ret os n (CLONE_VFORK OR CLONE_VM)")
        case (Inl c)
        have "exec_trampoline os n m =
         goto_fail n (Some ''clone(doublefork)'') (m2\<lparr>data := ?d, errno := c\<rparr>)
           (es1 @ es2 @
            [\<lparr>ev_ctx = n, ev_call = Clone (CLONE_VFORK OR CLONE_VM), ev_fail = Some c,
              ev_data = ?d\<rparr>])"
          using df by (subst exec_trampoline.simps) (simp add: b1 b2 Inl Let_def)
        with b1 b2 df Inl show ?thesis by (rule clone_fail)
      next
        case (Inr pid)
        obtain out' m3 es3 where
          inner: "exec_trampoline os (Suc n) (m2\<lparr>data := ?d\<rparr>) = (out', m3, es3)"
          by (cases "exec_trampoline os (Suc n) (m2\<lparr>data := ?d\<rparr>)")
        have "exec_trampoline os n m =
         goto_fail n None m3
           (es1 @ es2 @
            [\<lparr>ev_ctx = n, ev_call = Clone (CLONE_VFORK OR CLONE_VM), ev_fail = None,
              ev_data = ?d\<rparr>] @ es3)"
          using df inner by (subst exec_trampoline.simps) (simp add: b1 b2 Inr Let_def)
        with b1 b2 df Inr inner show ?thesis by (rule clone_ok)
      qed
    qed
  qed
qed

text \<open>What each block leaves for the blocks after it, and the calls it makes.\<close>

lemma trace_goto_fail:
  "trace_of (goto_fail n fn m es) =
     es @ [\<lparr>ev_ctx = n, ev_call = Raise_SIGKILL, ev_fail = None,
            ev_data = (data m)\<lparr>fun_name := fn, error := errno m\<rparr>\<rparr>]"
  by (simp add: goto_fail_def Let_def trace_of_def)

lemma setsid_keeps:
  assumes "setsid_block os n m = Inr (m1, es1)"
  shows "flags (data m1) AND push_bit ETD_DOUBLEFORK 1 = flags (data m) AND push_bit ETD_DOUBLEFORK 1"
    and "parent_signal (data m1) = parent_signal (data m)"
    and "sigign (data m1) = sigign (data m)"
proof -
  have fl: "flags (data m1) = flags (data m) \<or>
            flags (data m1) = flags (data m) AND NOT (push_bit ETD_SETSID 1)"
    using assms by (auto simp: setsid_block_def Let_def split: if_splits option.splits)
  show "flags (data m1) AND push_bit ETD_DOUBLEFORK 1 = flags (data m) AND push_bit ETD_DOUBLEFORK 1"
    using fl and_not_other_bit[OF flag_bits_distinct(1), of "flags (data m)"] by auto
  show "parent_signal (data m1) = parent_signal (data m)"
    using assms by (auto simp: setsid_block_def Let_def split: if_splits option.splits)
  show "sigign (data m1) = sigign (data m)"
    using assms by (auto simp: setsid_block_def Let_def split: if_splits option.splits)
qed

lemma setsid_events:
  assumes "setsid_block os n m = Inr (m1, es1)"
  shows "\<forall>e\<in>set es1. ev_ctx e = n \<and> ev_call e = Setsid \<and> ev_fail e = None"
    and "flags (data m) AND push_bit ETD_SETSID 1 \<noteq> 0 \<Longrightarrow>
           \<exists>e\<in>set es1. ev_ctx e = n \<and> ev_call e = Setsid"
  using assms by (auto simp: setsid_block_def Let_def split: if_splits option.splits)

lemma setsid_failed:
  assumes "setsid_block os n m = Inl (fn, m1, es1)"
  shows "\<exists>f c. es1 = [f] \<and> ev_ctx f = n \<and> ev_call f = Setsid \<and> ev_fail f = Some c"
  using assms by (auto simp: setsid_block_def Let_def split: if_splits option.splits)

lemma pdeathsig_keeps:
  assumes "pdeathsig_block os n m = Inr (m1, es1)"
  shows "flags (data m1) = flags (data m)" and "sigign (data m1) = sigign (data m)"
  using assms by (auto simp: pdeathsig_block_def Let_def split: if_splits option.splits)

lemma pdeathsig_events:
  assumes "pdeathsig_block os n m = Inr (m1, es1)"
  shows "\<forall>e\<in>set es1. ev_ctx e = n \<and> ev_call e = Prctl_set_pdeathsig (parent_signal (data m)) \<and>
                   ev_fail e = None"
    and "0 \<le> parent_signal (data m) \<Longrightarrow>
           \<exists>e\<in>set es1. ev_ctx e = n \<and> ev_call e = Prctl_set_pdeathsig (parent_signal (data m))"
  using assms by (auto simp: pdeathsig_block_def Let_def split: if_splits option.splits)

lemma pdeathsig_failed:
  assumes "pdeathsig_block os n m = Inl (fn, m1, es1)"
  shows "\<exists>f c. es1 = [f] \<and> ev_ctx f = n \<and>
           ev_call f = Prctl_set_pdeathsig (parent_signal (data m)) \<and> ev_fail f = Some c"
  using assms by (auto simp: pdeathsig_block_def Let_def split: if_splits option.splits)

lemma sigign_events:
  assumes b: "sigign_block os n m = Inr (m1, es1)"
  shows "\<forall>e\<in>set es1. ev_ctx e = n \<and> step_rank (ev_call e) = 4 \<and> ev_fail e = None"
    and "call_justified (data m) (Signal_ign k) \<Longrightarrow>
           \<exists>e\<in>set es1. ev_ctx e = n \<and> ev_call e = Signal_ign k"
proof -
  from sigign_stage[where os = os and n = n and m = m] b
  have 1: "\<forall>e\<in>set es1. ev_ctx e = n \<and> trigger_cleared e \<and> call_justified (data m) (ev_call e) \<and>
                     step_rank (ev_call e) = 4 \<and> ev_fail e = None"
    and 2: "\<forall>k. call_justified (data m) (Signal_ign k) \<longrightarrow> (\<exists>e\<in>set es1. ev_call e = Signal_ign k)"
    by simp_all
  show "\<forall>e\<in>set es1. ev_ctx e = n \<and> step_rank (ev_call e) = 4 \<and> ev_fail e = None"
    using 1 by blast
  show "\<exists>e\<in>set es1. ev_ctx e = n \<and> ev_call e = Signal_ign k"
    if "call_justified (data m) (Signal_ign k)"
    using 1 2 that by blast
qed

lemma sigign_failed:
  assumes b: "sigign_block os n m = Inl (fn, m1, es1)"
  shows "\<exists>f c. f \<in> set es1 \<and> ev_ctx f = n \<and> step_rank (ev_call f) = 4 \<and> ev_fail f = Some c"
proof -
  from sigign_stage[where os = os and n = n and m = m] b
  obtain pre f c where "es1 = pre @ [f]"
    "\<forall>e\<in>set (pre @ [f]). ev_ctx e = n \<and> trigger_cleared e \<and>
                     call_justified (data m) (ev_call e) \<and> step_rank (ev_call e) = 4"
    "ev_fail f = Some c"
    by auto
  then show ?thesis
    by (intro exI[of _ f] exI[of _ c]) simp
qed

text \<open>
  A step whose trigger is set is taken unless an earlier call of the same context failed;
  a pass that fails, and every pass that takes the double-fork step, ends with
  \<^verbatim>\<open>raise(SIGKILL)\<close>.
\<close>

lemma failed_step_blocks:
  assumes "f \<in> set es" "ev_ctx f = n" "ev_fail f = Some c" "step_rank (ev_call f) < r"
  shows "\<not> no_failure_before n r es"
  using assms by (auto simp: no_failure_before_def)

lemma in_parts:
  "e \<in> set a \<Longrightarrow> e \<in> set (a @ b)"
  "e \<in> set b \<Longrightarrow> e \<in> set (a @ b)"
  by simp_all

lemma steps_taken:
  fixes os :: os and n :: nat and m :: mem
  defines "es \<equiv> trace_of (exec_trampoline os n m)"
  shows
   "(flags (data m) AND push_bit ETD_SETSID 1 \<noteq> 0 \<longrightarrow>
       (\<exists>e\<in>set es. ev_ctx e = n \<and> ev_call e = Setsid)) \<and>
    (0 \<le> parent_signal (data m) \<and> no_failure_before n 2 es \<longrightarrow>
       (\<exists>e\<in>set es. ev_ctx e = n \<and> ev_call e = Prctl_set_pdeathsig (parent_signal (data m)))) \<and>
    (flags (data m) AND push_bit ETD_DOUBLEFORK 1 \<noteq> 0 \<and> no_failure_before n 3 es \<longrightarrow>
       (\<exists>e\<in>set es. ev_ctx e = n \<and> ev_call e = Clone (CLONE_VFORK OR CLONE_VM))) \<and>
    (flags (data m) AND push_bit ETD_DOUBLEFORK 1 = 0 \<and> no_failure_before n 4 es \<and>
     (\<exists>k. call_justified (data m) (Signal_ign k)) \<longrightarrow>
       (\<exists>e\<in>set es. ev_ctx e = n \<and> step_rank (ev_call e) = 4)) \<and>
    (flags (data m) AND push_bit ETD_DOUBLEFORK 1 = 0 \<and> no_failure_before n 5 es \<longrightarrow>
       (\<forall>k. call_justified (data m) (Signal_ign k) \<longrightarrow>
            (\<exists>e\<in>set es. ev_ctx e = n \<and> ev_call e = Signal_ign k)) \<and>
       (\<exists>e\<in>set es. ev_ctx e = n \<and> ev_call e = Getpid) \<and>
       (\<exists>e\<in>set es. ev_ctx e = n \<and> is_exec (ev_call e))) \<and>
    (flags (data m) AND push_bit ETD_DOUBLEFORK 1 \<noteq> 0 \<or>
     (\<exists>e\<in>set es. ev_ctx e = n \<and> ev_fail e \<noteq> None) \<longrightarrow>
       (\<exists>e\<in>set es. ev_ctx e = n \<and> ev_call e = Raise_SIGKILL))"
   (is "?A \<and> ?B \<and> ?C \<and> ?D \<and> ?E \<and> ?F")
proof (cases rule: trampoline_cases[where os = os and n = n and m = m])
  case (setsid_fail fn m1 es1)
  from setsid_failed[OF setsid_fail(1)] obtain f c where
    f: "es1 = [f]" "ev_ctx f = n" "ev_call f = Setsid" "ev_fail f = Some c"
    by blast
  obtain k where t: "es = es1 @ [k]" and k: "ev_ctx k = n" "ev_call k = Raise_SIGKILL"
    unfolding es_def setsid_fail(2) by (simp add: trace_goto_fail)
  have fin: "f \<in> set es" unfolding t f(1) by simp
  have blk: "\<not> no_failure_before n r es" if "1 < r" for r
    by (rule failed_step_blocks[OF fin f(2) f(4)]) (use that f(3) in simp)
  have a: "\<exists>e\<in>set es. ev_ctx e = n \<and> ev_call e = Setsid" using fin f(2,3) by blast
  have kk: "\<exists>e\<in>set es. ev_ctx e = n \<and> ev_call e = Raise_SIGKILL"
    unfolding t using k by simp
  show ?thesis
    using a kk blk[of 2] blk[of 3] blk[of 4] blk[of 5] by simp
next
  case (pdeathsig_fail m1 es1 fn m2 es2)
  note s = setsid_keeps[OF pdeathsig_fail(1)]
  from pdeathsig_failed[OF pdeathsig_fail(2)] obtain f c where
    f: "es2 = [f]" "ev_ctx f = n" "ev_call f = Prctl_set_pdeathsig (parent_signal (data m))"
      "ev_fail f = Some c"
    unfolding s(2) by blast
  obtain k where t: "es = es1 @ es2 @ [k]" and k: "ev_ctx k = n" "ev_call k = Raise_SIGKILL"
    unfolding es_def pdeathsig_fail(3) by (simp add: trace_goto_fail)
  have fin: "f \<in> set es" unfolding t f(1) by simp
  have blk: "\<not> no_failure_before n r es" if "2 < r" for r
    by (rule failed_step_blocks[OF fin f(2) f(4)]) (use that f(3) in simp)
  have a: ?A
  proof
    assume "flags (data m) AND push_bit ETD_SETSID 1 \<noteq> 0"
    from setsid_events(2)[OF pdeathsig_fail(1) this]
    show "\<exists>e\<in>set es. ev_ctx e = n \<and> ev_call e = Setsid"
      unfolding t by (blast intro: in_parts)
  qed
  have b: "\<exists>e\<in>set es. ev_ctx e = n \<and> ev_call e = Prctl_set_pdeathsig (parent_signal (data m))"
    using fin f(2,3) by blast
  have kk: "\<exists>e\<in>set es. ev_ctx e = n \<and> ev_call e = Raise_SIGKILL"
    unfolding t using k by simp
  show ?thesis
    using a b kk blk[of 3] blk[of 4] blk[of 5] by simp
next
  case (clone_fail m1 es1 m2 es2 c)
  note s = setsid_keeps[OF clone_fail(1)]
  note p = pdeathsig_keeps[OF clone_fail(2)]
  obtain f k where t: "es = es1 @ es2 @ [f] @ [k]"
    and k: "ev_ctx k = n" "ev_call k = Raise_SIGKILL"
    and f: "ev_ctx f = n" "ev_call f = Clone (CLONE_VFORK OR CLONE_VM)" "ev_fail f = Some c"
    unfolding es_def clone_fail(5) by (simp add: trace_goto_fail)
  have fin: "f \<in> set es" unfolding t by simp
  have blk: "\<not> no_failure_before n r es" if "3 < r" for r
    by (rule failed_step_blocks[OF fin f(1) f(3)]) (use that f(2) in simp)
  have a: ?A
  proof
    assume "flags (data m) AND push_bit ETD_SETSID 1 \<noteq> 0"
    from setsid_events(2)[OF clone_fail(1) this]
    show "\<exists>e\<in>set es. ev_ctx e = n \<and> ev_call e = Setsid"
      unfolding t by (blast intro: in_parts)
  qed
  have b: ?B
  proof
    assume "0 \<le> parent_signal (data m) \<and> no_failure_before n 2 es"
    then have "0 \<le> parent_signal (data m1)" unfolding s(2) by simp
    from pdeathsig_events(2)[OF clone_fail(2) this]
    show "\<exists>e\<in>set es. ev_ctx e = n \<and> ev_call e = Prctl_set_pdeathsig (parent_signal (data m))"
      unfolding t s(2) by (blast intro: in_parts)
  qed
  have c: "\<exists>e\<in>set es. ev_ctx e = n \<and> ev_call e = Clone (CLONE_VFORK OR CLONE_VM)"
    using fin f(1,2) by blast
  have kk: "\<exists>e\<in>set es. ev_ctx e = n \<and> ev_call e = Raise_SIGKILL"
    unfolding t using k by simp
  show ?thesis
    using a b c kk blk[of 4] blk[of 5] by simp
next
  case (clone_ok m1 es1 m2 es2 pid out' m3 es3)
  note s = setsid_keeps[OF clone_ok(1)]
  note p = pdeathsig_keeps[OF clone_ok(2)]
  obtain f k where t: "es = es1 @ es2 @ [f] @ es3 @ [k]"
    and k: "ev_ctx k = n" "ev_call k = Raise_SIGKILL"
    and f: "ev_ctx f = n" "ev_call f = Clone (CLONE_VFORK OR CLONE_VM)"
    unfolding es_def clone_ok(6) by (simp add: trace_goto_fail)
  have fin: "f \<in> set es" unfolding t by simp
  have df: "flags (data m) AND push_bit ETD_DOUBLEFORK 1 \<noteq> 0"
    using clone_ok(3) unfolding p(1) s(1) .
  have a: ?A
  proof
    assume "flags (data m) AND push_bit ETD_SETSID 1 \<noteq> 0"
    from setsid_events(2)[OF clone_ok(1) this]
    show "\<exists>e\<in>set es. ev_ctx e = n \<and> ev_call e = Setsid"
      unfolding t by (blast intro: in_parts)
  qed
  have b: ?B
  proof
    assume "0 \<le> parent_signal (data m) \<and> no_failure_before n 2 es"
    then have "0 \<le> parent_signal (data m1)" unfolding s(2) by simp
    from pdeathsig_events(2)[OF clone_ok(2) this]
    show "\<exists>e\<in>set es. ev_ctx e = n \<and> ev_call e = Prctl_set_pdeathsig (parent_signal (data m))"
      unfolding t s(2) by (blast intro: in_parts)
  qed
  have c: "\<exists>e\<in>set es. ev_ctx e = n \<and> ev_call e = Clone (CLONE_VFORK OR CLONE_VM)"
    using fin f(1,2) by blast
  have kk: "\<exists>e\<in>set es. ev_ctx e = n \<and> ev_call e = Raise_SIGKILL"
    unfolding t using k by simp
  have d: ?D and e: ?E using df by blast+
  show ?thesis
    using a b c d e kk by blast
next
  case (sigign_fail m1 es1 m2 es2 fn m4 es4)
  note s = setsid_keeps[OF sigign_fail(1)]
  note p = pdeathsig_keeps[OF sigign_fail(2)]
  from sigign_failed[OF sigign_fail(4)] obtain f c where
    f: "f \<in> set es4" "ev_ctx f = n" "step_rank (ev_call f) = 4" "ev_fail f = Some c"
    by blast
  obtain k where t: "es = es1 @ es2 @ es4 @ [k]"
    and k: "ev_ctx k = n" "ev_call k = Raise_SIGKILL"
    unfolding es_def sigign_fail(5) by (simp add: trace_goto_fail)
  have fin: "f \<in> set es" unfolding t using f(1) by simp
  have blk: "\<not> no_failure_before n r es" if "4 < r" for r
    by (rule failed_step_blocks[OF fin f(2) f(4)]) (use that f(3) in simp)
  have nodf: "flags (data m) AND push_bit ETD_DOUBLEFORK 1 = 0"
    using sigign_fail(3) unfolding p(1) s(1) .
  have a: ?A
  proof
    assume "flags (data m) AND push_bit ETD_SETSID 1 \<noteq> 0"
    from setsid_events(2)[OF sigign_fail(1) this]
    show "\<exists>e\<in>set es. ev_ctx e = n \<and> ev_call e = Setsid"
      unfolding t by (blast intro: in_parts)
  qed
  have b: ?B
  proof
    assume "0 \<le> parent_signal (data m) \<and> no_failure_before n 2 es"
    then have "0 \<le> parent_signal (data m1)" unfolding s(2) by simp
    from pdeathsig_events(2)[OF sigign_fail(2) this]
    show "\<exists>e\<in>set es. ev_ctx e = n \<and> ev_call e = Prctl_set_pdeathsig (parent_signal (data m))"
      unfolding t s(2) by (blast intro: in_parts)
  qed
  have c: ?C using nodf by blast
  have d: "\<exists>e\<in>set es. ev_ctx e = n \<and> step_rank (ev_call e) = 4" using fin f(2,3) by blast
  have e: ?E using blk[of 5] by simp
  have kk: "\<exists>e\<in>set es. ev_ctx e = n \<and> ev_call e = Raise_SIGKILL"
    unfolding t using k by simp
  show ?thesis
    using a b c d e kk by blast
next
  case (exec m1 es1 m2 es2 m4 es4)
  note s = setsid_keeps[OF exec(1)]
  note p = pdeathsig_keeps[OF exec(2)]
  note g = sigign_events[OF exec(4)]
  obtain gp x where x: "ev_ctx gp = n" "ev_call gp = Getpid" "ev_fail gp = None"
      "ev_ctx x = n" "is_exec (ev_call x)" "ev_fail x = exec_err os n"
    and xb: "exec_block os n m4 (es1 @ es2 @ es4) =
           (case exec_err os n of
              None \<Rightarrow> (ImageReplaced, m4\<lparr>data := ev_data x\<rparr>, (es1 @ es2 @ es4) @ [gp, x])
            | Some c \<Rightarrow>
                (Killed, m4\<lparr>data := ev_data (failure_record x c), errno := c\<rparr>,
                 (es1 @ es2 @ es4) @ [gp, x, failure_record x c]))"
    using exec_stage[where os = os and n = n and m = m4 and es = "es1 @ es2 @ es4"] by blast
  obtain tl where t: "es = es1 @ es2 @ es4 @ [gp, x] @ tl"
    and tl: "tl = (case exec_err os n of None \<Rightarrow> [] | Some c \<Rightarrow> [failure_record x c])"
    unfolding es_def exec(5) xb by (simp add: trace_of_def split: option.splits)
  have nodf: "flags (data m) AND push_bit ETD_DOUBLEFORK 1 = 0"
    using exec(3) unfolding p(1) s(1) .
  have sg: "call_justified (data m2) (Signal_ign k) \<longleftrightarrow> call_justified (data m) (Signal_ign k)" for k
    unfolding call_justified_def p(2) s(3) by simp
  have a: ?A
  proof
    assume "flags (data m) AND push_bit ETD_SETSID 1 \<noteq> 0"
    from setsid_events(2)[OF exec(1) this]
    show "\<exists>e\<in>set es. ev_ctx e = n \<and> ev_call e = Setsid"
      unfolding t by (blast intro: in_parts)
  qed
  have b: ?B
  proof
    assume "0 \<le> parent_signal (data m) \<and> no_failure_before n 2 es"
    then have "0 \<le> parent_signal (data m1)" unfolding s(2) by simp
    from pdeathsig_events(2)[OF exec(2) this]
    show "\<exists>e\<in>set es. ev_ctx e = n \<and> ev_call e = Prctl_set_pdeathsig (parent_signal (data m))"
      unfolding t s(2) by (blast intro: in_parts)
  qed
  have c: ?C using nodf by blast
  have sigs: "\<exists>e\<in>set es. ev_ctx e = n \<and> ev_call e = Signal_ign k"
    if "call_justified (data m) (Signal_ign k)" for k
  proof -
    from that have "call_justified (data m2) (Signal_ign k)" unfolding sg .
    from g(2)[OF this] show ?thesis
      unfolding t by (blast intro: in_parts)
  qed
  have d: ?D
  proof
    assume "flags (data m) AND push_bit ETD_DOUBLEFORK 1 = 0 \<and> no_failure_before n 4 es \<and>
      (\<exists>k. call_justified (data m) (Signal_ign k))"
    then obtain k where "call_justified (data m) (Signal_ign k)" by blast
    from sigs[OF this] obtain e where "e \<in> set es" "ev_ctx e = n" "ev_call e = Signal_ign k"
      by blast
    then have "e \<in> set es \<and> ev_ctx e = n \<and> step_rank (ev_call e) = 4" by simp
    then show "\<exists>e\<in>set es. ev_ctx e = n \<and> step_rank (ev_call e) = 4" by blast
  qed
  have "gp \<in> set es" "x \<in> set es" unfolding t by simp_all
  with x have gx: "\<exists>e\<in>set es. ev_ctx e = n \<and> ev_call e = Getpid"
            "\<exists>e\<in>set es. ev_ctx e = n \<and> is_exec (ev_call e)"
    by blast+
  have e: ?E using sigs gx by blast
  have f: ?F
  proof
    assume "flags (data m) AND push_bit ETD_DOUBLEFORK 1 \<noteq> 0 \<or>
      (\<exists>e\<in>set es. ev_ctx e = n \<and> ev_fail e \<noteq> None)"
    with nodf obtain e where e: "e \<in> set es" "ev_fail e \<noteq> None" by blast
    have quiet: "\<forall>e\<in>set (es1 @ es2 @ es4 @ [gp]). ev_fail e = None"
      using setsid_events(1)[OF exec(1)] pdeathsig_events(1)[OF exec(2)] g(1) x(3) by auto
    have "exec_err os n \<noteq> None"
    proof
      assume none: "exec_err os n = None"
      then have "es = (es1 @ es2 @ es4 @ [gp]) @ [x]" unfolding t tl by simp
      with e(1) quiet e(2) have "e = x" by auto
      with e(2) x(6) none show False by simp
    qed
    then obtain c where "exec_err os n = Some c" by blast
    then have "failure_record x c \<in> set es" unfolding t tl by simp
    moreover have "ev_ctx (failure_record x c) = n" "ev_call (failure_record x c) = Raise_SIGKILL"
      using x(4) by (simp_all add: failure_record_def)
    ultimately show "\<exists>e\<in>set es. ev_ctx e = n \<and> ev_call e = Raise_SIGKILL"
      by blast
  qed
  show ?thesis
    using a b c d e f by blast
qed


text \<open>
  After a successful \<^verbatim>\<open>clone\<close> of the double-fork step the calls of the new context are
  those of the trampoline run on the descriptor the first pass left; if the first pass
  took the parent-death step, the second pass takes it again, with signal 0.
\<close>

lemma second_pass_run:
  fixes os :: os and n :: nat and m :: mem
  defines "es \<equiv> trace_of (exec_trampoline os n m)"
  assumes cl: "\<exists>e\<in>set es. is_clone (ev_call e) \<and> ev_fail e = None"
  shows "by_ctx (Suc n) es =
           trace_of (exec_trampoline os (Suc n) (m\<lparr>data := second_pass_data (data m)\<rparr>))"
    and "0 \<le> parent_signal (data m) \<Longrightarrow>
           \<exists>e\<in>set es. ev_ctx e = Suc n \<and> ev_call e = Prctl_set_pdeathsig 0"
proof -
  from cl obtain e where e: "e \<in> set es" "is_clone (ev_call e)" "ev_fail e = None"
    by blast
  have df: "flags (data m) AND push_bit ETD_DOUBLEFORK 1 \<noteq> 0"
  proof -
    from run_events[of os n m] e(1)
    consider "ev_call e = Raise_SIGKILL" | "call_justified (data m) (ev_call e)"
      | "step_rank (ev_call e) \<noteq> 3"
      unfolding es_def by blast
    then show ?thesis
      using e(2) by cases (auto simp: is_clone_def call_justified_def split: syscall.splits)
  qed
  let ?m2 = "m\<lparr>data := second_pass_data (data m)\<rparr>"
  have both: "by_ctx (Suc n) es = trace_of (exec_trampoline os (Suc n) ?m2) \<and>
    (0 \<le> parent_signal (data m) \<longrightarrow>
       (\<exists>e\<in>set es. ev_ctx e = Suc n \<and> ev_call e = Prctl_set_pdeathsig 0))"
  proof (rule double_run_inner[OF df, where os = os and n = n], goal_cases)
    case d: (1 calls inner k)
    have tr: "es = calls @ inner @ [k]"
      unfolding es_def by (rule d(1))
    have kc: "ev_call k = Raise_SIGKILL" "ev_ctx k = n" using d(5) by simp_all
    have el: "e = last calls"
      by (rule double_run_clone[OF df d(1) d(2) d(3) d(4) kc(1) d(8)])
         (use e(1,2) in \<open>simp_all add: es_def\<close>)
    with d(7) e(3) have i: "inner = trace_of (exec_trampoline os (Suc n) ?m2)"
      by auto
    have c1: "by_ctx (Suc n) calls = []"
      using by_ctx_all[OF pass_calls_ctx[OF d(3)], of "Suc n"] by simp
    have c2: "by_ctx (Suc n) inner = inner"
    proof -
      have "\<forall>e\<in>set inner. ev_ctx e = Suc n" using d(8) by blast
      from by_ctx_all[OF this, of "Suc n"] show ?thesis by simp
    qed
    have c3: "by_ctx (Suc n) [k] = []"
      using kc(2) by (simp add: by_ctx_Cons)
    have p1: "by_ctx (Suc n) es = trace_of (exec_trampoline os (Suc n) ?m2)"
      unfolding tr by (simp add: c1 c2 c3 i[symmetric])
    have p2: "\<exists>e\<in>set es. ev_ctx e = Suc n \<and> ev_call e = Prctl_set_pdeathsig 0"
      if ps: "0 \<le> parent_signal (data m)"
    proof -
      have s2: "flags (data ?m2) AND push_bit ETD_SETSID 1 = 0"
        using second_pass_data_flags(2)[of "data m"] by simp
      have z: "parent_signal (data ?m2) = 0"
        using ps by simp
      from pdeathsig_step_taken[OF s2, of os "Suc n"] z
      obtain rest where "inner = \<lparr>ev_ctx = Suc n, ev_call = Prctl_set_pdeathsig 0,
               ev_fail = prctl_err os (Suc n) 0,
               ev_data = (data ?m2)\<lparr>parent_signal := 0\<rparr>\<rparr> # rest"
        unfolding i by auto
      then show ?thesis
        unfolding tr by simp
    qed
    show ?case using p1 p2 by blast
  qed
  show "by_ctx (Suc n) es = trace_of (exec_trampoline os (Suc n) ?m2)"
    using both by blast
  show "\<exists>e\<in>set es. ev_ctx e = Suc n \<and> ev_call e = Prctl_set_pdeathsig 0"
    if "0 \<le> parent_signal (data m)"
    using both that by blast
qed

section \<open>The order of the steps and the clearing of their triggers\<close>

text \<open>
  Claim C1, as stated, fails in its last part: the second pass of a double fork does not
  skip all work already done. For the call with \<^verbatim>\<open>signal=0\<close> and \<^verbatim>\<open>doublefork=True\<close> the
  first context calls \<^verbatim>\<open>prctl(PR_SET_PDEATHSIG, 0)\<close> and the context it creates makes the
  same call again, because the guard of the step (\<^verbatim>\<open>parent_signal >= 0\<close>) holds for the
  cleared value 0.
\<close>

theorem second_pass_repeats_pdeathsig_step:
  "map (\<lambda>e. (ev_ctx e, ev_call e))
     (trace_of (exec_trampoline os_ok 1
        \<lparr>data = plain_data\<lparr>flags := push_bit ETD_DOUBLEFORK 1, parent_signal := 0\<rparr>,
         errno = 0\<rparr>)) =
   [(1, Prctl_set_pdeathsig 0), (1, Clone (CLONE_VFORK OR CLONE_VM)),
    (2, Prctl_set_pdeathsig 0), (2, Getpid), (2, Exec Execv), (1, Raise_SIGKILL)]"
  by code_simp

text \<open>
  Claim C1, amended. In every run each context makes its calls in the fixed order session
  detach, parent-death signal, double fork, signal dispositions, own process id, image
  replacement, terminal failure, and the field that triggers a step (the session flag, the
  parent-death signal, the double-fork flag, the ignore mask) is already cleared in the
  descriptor when the call of the step is made. The steps are executed: the session detach
  whenever its flag is set; the parent-death step, with the signal of the descriptor,
  whenever that signal is not negative and no earlier call failed; the double fork whenever
  its flag is set and no earlier call failed; without double fork, the signal step when no
  earlier call failed, and every disposition asked for, \<^verbatim>\<open>getpid\<close> and the \<^verbatim>\<open>exec\<close> call when
  no call before them failed; \<^verbatim>\<open>raise(SIGKILL)\<close> whenever a call failed and after every
  double fork. A re-entrant second pass makes no \<^verbatim>\<open>setsid\<close> and no \<^verbatim>\<open>clone\<close> call, and any
  \<^verbatim>\<open>prctl\<close> call it makes is made with signal 0; its calls are those of the trampoline run
  on the descriptor with both flags cleared and the parent-death signal set to 0 if it was
  not negative; and it does not skip the parent-death step: whenever the first pass took
  it, the second pass calls \<^verbatim>\<open>prctl(PR_SET_PDEATHSIG, 0)\<close>.
\<close>

theorem trampoline_step_order:
  fixes os :: os and n :: nat and m :: mem
  defines "es \<equiv> trace_of (exec_trampoline os n m)"
  shows
  "(\<forall>c. in_order (by_ctx c es)) \<and>
   (\<forall>e\<in>set es. trigger_cleared e) \<and>
   (\<forall>e\<in>set es.
      ev_ctx e \<noteq> n \<longrightarrow>
        ev_call e \<noteq> Setsid \<and> \<not> is_clone (ev_call e) \<and>
        (\<forall>s. ev_call e = Prctl_set_pdeathsig s \<longrightarrow> s = 0)) \<and>
   (flags (data m) AND push_bit ETD_SETSID 1 \<noteq> 0 \<longrightarrow>
      (\<exists>e\<in>set es. ev_ctx e = n \<and> ev_call e = Setsid)) \<and>
   (0 \<le> parent_signal (data m) \<and> no_failure_before n 2 es \<longrightarrow>
      (\<exists>e\<in>set es. ev_ctx e = n \<and> ev_call e = Prctl_set_pdeathsig (parent_signal (data m)))) \<and>
   (flags (data m) AND push_bit ETD_DOUBLEFORK 1 \<noteq> 0 \<and> no_failure_before n 3 es \<longrightarrow>
      (\<exists>e\<in>set es. ev_ctx e = n \<and> ev_call e = Clone (CLONE_VFORK OR CLONE_VM))) \<and>
   (flags (data m) AND push_bit ETD_DOUBLEFORK 1 = 0 \<and> no_failure_before n 4 es \<and>
    (\<exists>k. call_justified (data m) (Signal_ign k)) \<longrightarrow>
      (\<exists>e\<in>set es. ev_ctx e = n \<and> step_rank (ev_call e) = 4)) \<and>
   (flags (data m) AND push_bit ETD_DOUBLEFORK 1 = 0 \<and> no_failure_before n 5 es \<longrightarrow>
      (\<forall>k. call_justified (data m) (Signal_ign k) \<longrightarrow>
           (\<exists>e\<in>set es. ev_ctx e = n \<and> ev_call e = Signal_ign k)) \<and>
      (\<exists>e\<in>set es. ev_ctx e = n \<and> ev_call e = Getpid) \<and>
      (\<exists>e\<in>set es. ev_ctx e = n \<and> is_exec (ev_call e))) \<and>
   (flags (data m) AND push_bit ETD_DOUBLEFORK 1 \<noteq> 0 \<or>
    (\<exists>e\<in>set es. ev_ctx e = n \<and> ev_fail e \<noteq> None) \<longrightarrow>
      (\<exists>e\<in>set es. ev_ctx e = n \<and> ev_call e = Raise_SIGKILL)) \<and>
   ((\<exists>e\<in>set es. is_clone (ev_call e) \<and> ev_fail e = None) \<longrightarrow>
      by_ctx (Suc n) es =
        trace_of (exec_trampoline os (Suc n) (m\<lparr>data := second_pass_data (data m)\<rparr>)) \<and>
      (0 \<le> parent_signal (data m) \<longrightarrow>
         (\<exists>e\<in>set es. ev_ctx e = Suc n \<and> ev_call e = Prctl_set_pdeathsig 0)))"
  (is "?order \<and> ?cleared \<and> ?second \<and> ?a \<and> ?b \<and> ?c \<and> ?d \<and> ?e \<and> ?f \<and> ?rerun")
proof -
  have "ev_call e \<noteq> Setsid \<and> \<not> is_clone (ev_call e) \<and>
        (\<forall>s. ev_call e = Prctl_set_pdeathsig s \<longrightarrow> s = 0)"
    if e: "e \<in> set es" and c: "ev_ctx e \<noteq> n" for e
  proof -
    from run_events[of os n m] e c
    consider "ev_call e = Raise_SIGKILL"
      | "step_rank (ev_call e) \<noteq> 3" "call_justified (second_pass_data (data m)) (ev_call e)"
      unfolding es_def by blast
    then show ?thesis
    proof cases
      case 1
      then show ?thesis by (simp add: is_clone_def)
    next
      case 2
      then show ?thesis
        using second_pass_data_flags(2)[of "data m"]
        by (cases "ev_call e") (auto simp: is_clone_def split: if_splits)
    qed
  qed
  then have second: ?second by blast
  have cleared: ?cleared
    using run_events[of os n m] unfolding es_def by blast
  have order: ?order
    unfolding es_def using run_order[of _ os n m] by blast
  have taken: "?a \<and> ?b \<and> ?c \<and> ?d \<and> ?e \<and> ?f"
    unfolding es_def by (rule steps_taken)
  have rerun: ?rerun
    using second_pass_run[of os n m] unfolding es_def by blast
  show ?thesis
    using order cleared second taken rerun by blast
qed

text \<open>
  Instances: the run that asks for everything, where both contexts make calls, and the same
  descriptor without flags, where one context takes every remaining step.
\<close>

theorem trampoline_step_order_witness:
  "map (\<lambda>e. (ev_ctx e, ev_call e, ev_fail e, trigger_cleared e))
     (trace_of (exec_trampoline os_ok 1 \<lparr>data = full_data, errno = 0\<rparr>)) =
   [(1, Setsid, None, True), (1, Prctl_set_pdeathsig 15, None, True),
    (1, Clone (CLONE_VFORK OR CLONE_VM), None, True), (2, Prctl_set_pdeathsig 0, None, True),
    (2, Signal_ign 2, None, True), (2, Getpid, None, True), (2, Exec Execv, None, True),
    (1, Raise_SIGKILL, None, True)] \<and>
   in_order (by_ctx 1 (trace_of (exec_trampoline os_ok 1 \<lparr>data = full_data, errno = 0\<rparr>))) \<and>
   in_order (by_ctx 2 (trace_of (exec_trampoline os_ok 1 \<lparr>data = full_data, errno = 0\<rparr>))) \<and>
   (\<exists>e\<in>set (trace_of (exec_trampoline os_ok 1 \<lparr>data = full_data, errno = 0\<rparr>)).
       ev_ctx e = 1 \<and> ev_call e = Prctl_set_pdeathsig 15) \<and>
   (\<exists>e\<in>set (trace_of (exec_trampoline os_ok 1 \<lparr>data = full_data, errno = 0\<rparr>)).
       ev_ctx e = 1 \<and> ev_call e = Clone (CLONE_VFORK OR CLONE_VM)) \<and>
   by_ctx 2 (trace_of (exec_trampoline os_ok 1 \<lparr>data = full_data, errno = 0\<rparr>)) =
     trace_of (exec_trampoline os_ok 2 \<lparr>data = second_pass_data full_data, errno = 0\<rparr>) \<and>
   (\<exists>e\<in>set (trace_of (exec_trampoline os_ok 1 \<lparr>data = full_data, errno = 0\<rparr>)).
       ev_ctx e = 2 \<and> ev_call e = Prctl_set_pdeathsig 0) \<and>
   map (\<lambda>e. (ev_ctx e, ev_call e, ev_fail e))
     (trace_of (exec_trampoline os_ok 1 \<lparr>data = full_data\<lparr>flags := 0\<rparr>, errno = 0\<rparr>)) =
   [(1, Prctl_set_pdeathsig 15, None), (1, Signal_ign 2, None), (1, Getpid, None),
    (1, Exec Execv, None)] \<and>
   (\<exists>e\<in>set (trace_of (exec_trampoline os_ok 1 \<lparr>data = full_data\<lparr>flags := 0\<rparr>, errno = 0\<rparr>)).
       ev_ctx e = 1 \<and> ev_call e = Signal_ign 2) \<and>
   (\<exists>e\<in>set (trace_of (exec_trampoline os_ok 1 \<lparr>data = full_data\<lparr>flags := 0\<rparr>, errno = 0\<rparr>)).
       ev_ctx e = 1 \<and> is_exec (ev_call e))"
proof -
  let ?m = "\<lparr>data = full_data, errno = 0\<rparr>"
  let ?es = "trace_of (exec_trampoline os_ok 1 ?m)"
  let ?m' = "\<lparr>data = full_data\<lparr>flags := 0\<rparr>, errno = 0\<rparr>"
  let ?es' = "trace_of (exec_trampoline os_ok 1 ?m')"
  have t: "map (\<lambda>e. (ev_ctx e, ev_call e, ev_fail e, trigger_cleared e)) ?es =
   [(1, Setsid, None, True), (1, Prctl_set_pdeathsig 15, None, True),
    (1, Clone (CLONE_VFORK OR CLONE_VM), None, True), (2, Prctl_set_pdeathsig 0, None, True),
    (2, Signal_ign 2, None, True), (2, Getpid, None, True), (2, Exec Execv, None, True),
    (1, Raise_SIGKILL, None, True)]"
    by code_simp
  have t': "map (\<lambda>e. (ev_ctx e, ev_call e, ev_fail e)) ?es' =
   [(1, Prctl_set_pdeathsig 15, None), (1, Signal_ign 2, None), (1, Getpid, None),
    (1, Exec Execv, None)]"
    by code_simp
  have h: "flags (data ?m) AND push_bit ETD_DOUBLEFORK 1 \<noteq> 0"
    "parent_signal (data ?m) = 15" "no_failure_before 1 2 ?es" "no_failure_before 1 3 ?es"
    by code_simp+
  have c: "?es ! 2 \<in> set ?es" "is_clone (ev_call (?es ! 2))" "ev_fail (?es ! 2) = None"
    by code_simp+
  then have cl: "\<exists>e\<in>set ?es. is_clone (ev_call e) \<and> ev_fail e = None"
    by blast
  have h': "flags (data ?m') AND push_bit ETD_DOUBLEFORK 1 = 0" "no_failure_before 1 5 ?es'"
    "call_justified (data ?m') (Signal_ign 2)"
    by code_simp+
  have h2: "0 \<le> parent_signal (data ?m)"
    by code_simp
  have eqs: "Suc 1 = 2"
    "?m\<lparr>data := second_pass_data (data ?m)\<rparr> = \<lparr>data = second_pass_data full_data, errno = 0\<rparr>"
    by simp_all
  note full = trampoline_step_order[of os_ok 1 ?m]
  note flat = trampoline_step_order[of os_ok 1 ?m']
  have o: "in_order (by_ctx 1 ?es)" "in_order (by_ctx 2 ?es)"
    using full by blast+
  from full h2 h(3)
  have "\<exists>e\<in>set ?es. ev_ctx e = 1 \<and> ev_call e = Prctl_set_pdeathsig (parent_signal (data ?m))"
    by blast
  then have p: "\<exists>e\<in>set ?es. ev_ctx e = 1 \<and> ev_call e = Prctl_set_pdeathsig 15"
    by (simp only: h(2))
  have k: "\<exists>e\<in>set ?es. ev_ctx e = 1 \<and> ev_call e = Clone (CLONE_VFORK OR CLONE_VM)"
    using full h(1,4) by blast
  from full cl h2
  have "by_ctx (Suc 1) ?es =
          trace_of (exec_trampoline os_ok (Suc 1) (?m\<lparr>data := second_pass_data (data ?m)\<rparr>))"
    "\<exists>e\<in>set ?es. ev_ctx e = Suc 1 \<and> ev_call e = Prctl_set_pdeathsig 0"
    by blast+
  then have r: "by_ctx 2 ?es =
      trace_of (exec_trampoline os_ok 2 \<lparr>data = second_pass_data full_data, errno = 0\<rparr>)"
    "\<exists>e\<in>set ?es. ev_ctx e = 2 \<and> ev_call e = Prctl_set_pdeathsig 0"
    by (simp_all only: eqs)
  have s: "\<exists>e\<in>set ?es'. ev_ctx e = 1 \<and> ev_call e = Signal_ign 2"
    "\<exists>e\<in>set ?es'. ev_ctx e = 1 \<and> is_exec (ev_call e)"
    using flat h' by blast+
  show ?thesis
    using t t' o p k r s by blast
qed

section \<open>The signals that cannot be ignored\<close>

text \<open>
  Claim C9: a sequence of signal numbers up to 31, among them \<^verbatim>\<open>SIGKILL\<close> (9) and
  \<^verbatim>\<open>SIGSTOP\<close> (19), is encoded without error and keeps their bits; for every mask the
  trampoline calls \<^verbatim>\<open>signal(k, SIG_IGN)\<close> only for set bits \<open>k - 1\<close> with \<open>k\<close> neither
  \<^verbatim>\<open>SIGKILL\<close> nor \<^verbatim>\<open>SIGSTOP\<close>, and when the image is replaced it has called it for every
  such bit.
\<close>

theorem forbidden_signals_skipped:
  fixes os :: os and n :: nat and m :: mem
  shows
  "(\<forall>xs. (\<forall>x\<in>set xs. 0 \<le> x \<and> x \<le> 31) \<longrightarrow>
      (\<exists>mask. sigign_converter (Some (PyList (map PyLong xs))) = Inr mask \<and>
              (\<forall>k. bit mask k \<longleftrightarrow> int k + 1 \<in> set xs))) \<and>
   int SIGKILL \<le> 31 \<and> int SIGSTOP \<le> 31 \<and>
   (\<forall>e\<in>set (trace_of (exec_trampoline os n m)).
      \<forall>k. ev_call e = Signal_ign k \<longrightarrow>
        1 \<le> k \<and> k \<le> 64 \<and> k \<noteq> SIGKILL \<and> k \<noteq> SIGSTOP \<and> bit (sigign (data m)) (k - 1)) \<and>
   (outcome_of (exec_trampoline os n m) = ImageReplaced \<longrightarrow>
      (\<forall>k. 1 \<le> k \<and> k \<le> 64 \<and> k \<noteq> SIGKILL \<and> k \<noteq> SIGSTOP \<and> bit (sigign (data m)) (k - 1) \<longrightarrow>
           (\<exists>e\<in>set (trace_of (exec_trampoline os n m)). ev_call e = Signal_ign k)))"
proof -
  let ?r = "exec_trampoline os n m"
  have enc: "\<forall>xs. (\<forall>x\<in>set xs. 0 \<le> x \<and> x \<le> 31) \<longrightarrow>
      (\<exists>mask. sigign_converter (Some (PyList (map PyLong xs))) = Inr mask \<and>
              (\<forall>k. bit mask k \<longleftrightarrow> int k + 1 \<in> set xs))"
    using sigign_converter_small by blast
  have num: "int SIGKILL \<le> 31 \<and> int SIGSTOP \<le> 31"
    by (simp add: SIGKILL_def SIGSTOP_def)
  have sound: "\<forall>e\<in>set (trace_of ?r). \<forall>k. ev_call e = Signal_ign k \<longrightarrow>
        1 \<le> k \<and> k \<le> 64 \<and> k \<noteq> SIGKILL \<and> k \<noteq> SIGSTOP \<and> bit (sigign (data m)) (k - 1)"
  proof (intro ballI allI impI)
    fix e k assume e: "e \<in> set (trace_of ?r)" "ev_call e = Signal_ign k"
    from run_events[of os n m] e(1) have
      "ev_call e = Raise_SIGKILL \<or> call_justified (data m) (ev_call e) \<or>
       call_justified (second_pass_data (data m)) (ev_call e)"
      by blast
    then show "1 \<le> k \<and> k \<le> 64 \<and> k \<noteq> SIGKILL \<and> k \<noteq> SIGSTOP \<and> bit (sigign (data m)) (k - 1)"
      using e(2) by auto
  qed
  have compl: "\<exists>e\<in>set (trace_of ?r). ev_call e = Signal_ign k"
    if o: "outcome_of ?r = ImageReplaced"
      and k: "1 \<le> k \<and> k \<le> 64 \<and> k \<noteq> SIGKILL \<and> k \<noteq> SIGSTOP \<and> bit (sigign (data m)) (k - 1)" for k
  proof (cases "flags (data m) AND push_bit ETD_DOUBLEFORK 1 = 0")
    case True
    have "call_justified (data m) (Signal_ign k)"
      using k by simp
    with single_run_signals[OF True, of os n] o show ?thesis by blast
  next
    case False
    have "outcome_of ?r = Killed"
      by (rule double_run_inner[OF False, where os = os and n = n])
    with o show ?thesis by simp
  qed
  show ?thesis
    using enc num sound compl by blast
qed

text \<open>The signals 2, 9 and 19: all three are in the mask, only signal 2 is applied.\<close>

theorem forbidden_signals_skipped_witness:
  "sigign_converter (Some (PyList (map PyLong [2, int SIGKILL, int SIGSTOP]))) =
     Inr (push_bit 1 1 OR push_bit 8 1 OR push_bit 18 1) \<and>
   sigign full_data = push_bit 1 1 OR push_bit 8 1 OR push_bit 18 1 \<and>
   bit (sigign full_data) (SIGKILL - 1) \<and> bit (sigign full_data) (SIGSTOP - 1) \<and>
   map ev_call (trace_of (exec_trampoline os_ok 1
        \<lparr>data = full_data\<lparr>flags := 0\<rparr>, errno = 0\<rparr>)) =
     [Prctl_set_pdeathsig 15, Signal_ign 2, Getpid, Exec Execv] \<and>
   outcome_of (exec_trampoline os_ok 1 \<lparr>data = full_data\<lparr>flags := 0\<rparr>, errno = 0\<rparr>) =
     ImageReplaced \<and>
   (\<exists>e\<in>set (trace_of (exec_trampoline os_ok 1 \<lparr>data = full_data\<lparr>flags := 0\<rparr>, errno = 0\<rparr>)).
       ev_call e = Signal_ign 2)"
proof -
  let ?m = "\<lparr>data = full_data\<lparr>flags := 0\<rparr>, errno = 0\<rparr>"
  let ?r = "exec_trampoline os_ok 1 ?m"
  have c: "sigign_converter (Some (PyList (map PyLong [2, int SIGKILL, int SIGSTOP]))) =
     Inr (push_bit 1 1 OR push_bit 8 1 OR push_bit 18 1)"
    "sigign full_data = push_bit 1 1 OR push_bit 8 1 OR push_bit 18 1"
    "bit (sigign full_data) (SIGKILL - 1)" "bit (sigign full_data) (SIGSTOP - 1)"
    by code_simp+
  have t: "map ev_call (trace_of ?r) = [Prctl_set_pdeathsig 15, Signal_ign 2, Getpid, Exec Execv]"
    "outcome_of ?r = ImageReplaced"
    by code_simp+
  have k: "1 \<le> (2::nat) \<and> (2::nat) \<le> 64 \<and> 2 \<noteq> SIGKILL \<and> 2 \<noteq> SIGSTOP \<and>
      bit (sigign (data ?m)) (2 - 1)"
    by code_simp
  from forbidden_signals_skipped[of os_ok 1 ?m] t(2) k
  have "\<exists>e\<in>set (trace_of ?r). ev_call e = Signal_ign 2"
    by blast
  with c t show ?thesis by blast
qed

section \<open>What the caller returns\<close>


lemma spawn_nonexistent_path:
  "fst (cloneandexecve_impl os_enoent 0 plain_call) =
     Error OSError ''clone successful, but %s failed with errno=%d'' [Arg_str ''execv'', Arg_int 2]"
  by code_simp

text \<open>
  Claim C8, as stated, fails: when the caller's \<^verbatim>\<open>clone\<close> fails the exception raised is
  of class \<^verbatim>\<open>Exception\<close>, not \<^verbatim>\<open>OSError\<close>.
\<close>

theorem clone_failure_raises_exception:
  "fst (cloneandexecve_impl os_eagain 0 plain_call) =
     Error Exception ''clone failed with errno=%d'' [Arg_int 11] \<and>
   fst (cloneandexecve_impl os_eagain 0 plain_call) \<noteq>
     Error OSError ''clone failed with errno=%d'' [Arg_int 11]"
  by code_simp

text \<open>
  Claim C8, amended: when the caller's \<^verbatim>\<open>clone\<close> fails, the call raises at once an
  exception of class \<^verbatim>\<open>Exception\<close> whose message carries the \<^verbatim>\<open>errno\<close> of the \<^verbatim>\<open>clone\<close>;
  no trampoline has run and the descriptor is not consulted.
\<close>

theorem clone_failure_reported_immediately:
  assumes "signal_m1_convert (arg_signal a) = Inr exec_signal"
    and "sigign_converter (arg_sigign a) = Inr exec_sigign"
    and "clone_ret os 0
           (if arg_sibling a then (CLONE_VFORK OR CLONE_VM) OR CLONE_PARENT
            else CLONE_VFORK OR CLONE_VM) = Inl code"
  shows "cloneandexecve_impl os errno0 a =
           (Error Exception ''clone failed with errno=%d'' [Arg_int code], [])"
  using assms by (simp add: cloneandexecve_impl_def Let_def)

text \<open>The plain call when \<^verbatim>\<open>clone\<close> fails with \<^verbatim>\<open>EAGAIN\<close>.\<close>

theorem clone_failure_reported_immediately_witness:
  "signal_m1_convert (arg_signal plain_call) = Inr (- 1) \<and>
   sigign_converter (arg_sigign plain_call) = Inr 0 \<and>
   clone_ret os_eagain 0
     (if arg_sibling plain_call then (CLONE_VFORK OR CLONE_VM) OR CLONE_PARENT
      else CLONE_VFORK OR CLONE_VM) = Inl 11 \<and>
   cloneandexecve_impl os_eagain 7 plain_call =
     (Error Exception ''clone failed with errno=%d'' [Arg_int 11], [])"
proof -
  have h: "signal_m1_convert (arg_signal plain_call) = Inr (- 1)"
    "sigign_converter (arg_sigign plain_call) = Inr 0"
    "clone_ret os_eagain 0
     (if arg_sibling plain_call then (CLONE_VFORK OR CLONE_VM) OR CLONE_PARENT
      else CLONE_VFORK OR CLONE_VM) = Inl 11"
    by code_simp+
  from clone_failure_reported_immediately[OF h, of 7] h show ?thesis by blast
qed





end
